theory Spec2Isabelle
  imports Main "HOL-Library.Char_ord" "HOL-Library.List_Lexorder"
begin

section \<open>The shared store\<close>

text \<open>
  The application keeps all shared state in one Firebase Realtime Database. The paths it
  reads and writes for matching are \<open>queue/<uid>\<close>, \<open>matches/<uid>\<close>,
  \<open>rooms/<roomId>\<close> and \<open>reports/<uid>\<close>; \<open>feedback/...\<close> and
  \<open>events/...\<close> are written and never read, and are left out, as are the status line
  and the video elements. Identifiers are JavaScript strings.
\<close>

type_synonym uid = string
type_synonym roomId = string

text \<open>An offer or answer payload as the code writes it: \<open>{type, sdp}\<close>.\<close>

type_synonym description = "string \<times> string"

text \<open>
  The node \<open>queue/<uid>\<close>. \<open>joinQueue\<close> writes the children \<open>uid\<close> and
  \<open>timestamp\<close>; \<open>attemptMatch\<close> writes the child \<open>reservedBy\<close> through a
  transaction on \<open>queue/<uid>/reservedBy\<close>. A child that was never written is absent, so
  each is optional; the node exists as long as it is listed in the queue.
\<close>

record queue_entry =
  qe_uid :: "uid option"
  qe_timestamp :: "nat option"
  reservedBy :: "uid option"

text \<open>
  The node \<open>rooms/<roomId>\<close>: \<open>createMatch\<close> writes \<open>createdBy\<close>,
  \<open>createdAt\<close> and \<open>participants\<close>; \<open>startCall\<close> and \<open>answerCall\<close>
  later add \<open>offer\<close> and \<open>answer\<close>, and the ICE handler the two candidate lists.
\<close>

record room =
  createdBy :: uid
  createdAt :: nat
  participants :: "uid list"
  offer :: "description option"
  answer :: "description option"
  callerCandidates :: "string list"
  calleeCandidates :: "string list"

text \<open>
  The queue is kept as an association list in the order in which the database enumerates
  children, which is ascending key order (for keys that are not decimal integers, as the
  generated ids \<open>user_...\<close> are not). \<open>Object.keys\<close> of a snapshot value lists the
  keys in that order. The other three tables are only ever read at a given key.
\<close>

record store =
  queue :: "(uid \<times> queue_entry) list"
  matches :: "uid \<Rightarrow> roomId option"
  rooms :: "roomId \<Rightarrow> room option"
  reports :: "uid \<Rightarrow> int option"

definition empty_store :: store where
  "empty_store = \<lparr>queue = [], matches = (\<lambda>_. None), rooms = (\<lambda>_. None), reports = (\<lambda>_. None)\<rparr>"

text \<open>Writing a child node at a key: replaces the node, or inserts it at its place in key order.\<close>

fun set_child :: "string \<Rightarrow> 'v \<Rightarrow> (string \<times> 'v) list \<Rightarrow> (string \<times> 'v) list" where
  "set_child k v [] = [(k, v)]"
| "set_child k v ((k', v') # rest) =
     (if k = k' then (k, v) # rest
      else if k < k' then (k, v) # (k', v') # rest
      else (k', v') # set_child k v rest)"

text \<open>\<open>remove()\<close>, or writing \<open>null\<close>: the node is gone; removing an absent node does nothing.\<close>

definition remove_child :: "string \<Rightarrow> (string \<times> 'v) list \<Rightarrow> (string \<times> 'v) list" where
  "remove_child k kvs = filter (\<lambda>kv. fst kv \<noteq> k) kvs"

definition Object_keys :: "(string \<times> 'v) list \<Rightarrow> string list" where
  "Object_keys kvs = map fst kvs"

definition in_queue :: "store \<Rightarrow> uid \<Rightarrow> bool" where
  "in_queue s u = (map_of (queue s) u \<noteq> None)"

section \<open>Choosing a candidate (\<open>joinQueue\<close>, the spec's \<open>findPartner\<close>)\<close>

text \<open>
  \<^verbatim>\<open>const otherUsers = Object.keys(queueData).filter(uid =>
      uid !== this.uid && !this.blockedUsers.includes(uid));
  if (otherUsers.length > 0) { const otherUid = otherUsers[0]; ... }\<close>
  A \<open>null\<close> snapshot value (no entry at all) behaves as the empty key list.
\<close>

definition otherUsers :: "uid list \<Rightarrow> uid \<Rightarrow> uid list \<Rightarrow> uid list" where
  "otherUsers ks self blocked = filter (\<lambda>u. u \<noteq> self \<and> u \<notin> set blocked) ks"

definition findPartner :: "uid list \<Rightarrow> uid \<Rightarrow> uid list \<Rightarrow> uid option" where
  "findPartner ks self blocked =
     (case otherUsers ks self blocked of [] \<Rightarrow> None | otherUid # _ \<Rightarrow> Some otherUid)"

section \<open>Store primitives used by the application\<close>

text \<open>
  \<open>ref.transaction(update)\<close>: the database calls \<open>update\<close> with the current value of
  the location (\<open>null\<close> is \<open>None\<close>) and, atomically with that read, writes what it
  returns; when \<open>update\<close> returns \<open>undefined\<close> (here \<open>None\<close>) the transaction is
  aborted, nothing is written and \<open>committed\<close> is false. The database serialises the
  transactions on one location, so each is one step on the stored value.
\<close>

definition transaction :: "('a option \<Rightarrow> 'a option) \<Rightarrow> 'a option \<Rightarrow> bool \<times> 'a option" where
  "transaction update current =
     (case update current of None \<Rightarrow> (False, current) | Some v \<Rightarrow> (True, Some v))"

text \<open>
  \<^verbatim>\<open>(current) => { return current === null ? this.uid : undefined; }\<close>
\<close>

definition reserve_update :: "uid \<Rightarrow> uid option \<Rightarrow> uid option" where
  "reserve_update self current = (if current = None then Some self else None)"

text \<open>
  The transaction of \<open>attemptMatch\<close> runs at \<open>queue/<otherUid>/reservedBy\<close>. The value
  there is \<open>null\<close> when the child or the whole node is absent; writing the child of an
  absent node creates the node with that child alone.
\<close>

definition reservation :: "(uid \<times> queue_entry) list \<Rightarrow> uid \<Rightarrow> uid option" where
  "reservation q otherUid = (case map_of q otherUid of None \<Rightarrow> None | Some e \<Rightarrow> reservedBy e)"

definition transaction_reservedBy ::
  "uid \<Rightarrow> uid \<Rightarrow> (uid \<times> queue_entry) list \<Rightarrow> bool \<times> (uid \<times> queue_entry) list" where
  "transaction_reservedBy otherUid self q =
     (let node = map_of q otherUid;
          current = reservation q otherUid
      in case transaction (reserve_update self) current of
           (committed, v) \<Rightarrow>
             if committed
             then (True, set_child otherUid
                     (case node of
                        None \<Rightarrow> \<lparr>qe_uid = None, qe_timestamp = None, reservedBy = v\<rparr>
                      | Some e \<Rightarrow> e\<lparr>reservedBy := v\<rparr>) q)
             else (False, q))"

text \<open>
  A JavaScript number is an IEEE 754 double. A counter holds an integer-valued one, kept
  here as the integer it denotes. The sum of two doubles is the exact sum rounded to the
  nearest double, a tie going to the even significand: every integer of magnitude up to
  \<open>2^53\<close> is a double, and above that the significand has 53 bits. (From \<open>2^1024\<close>
  on a double is infinite; the database holds no such number.)
\<close>

function bit_length :: "int \<Rightarrow> nat" where
  "bit_length m = (if m \<le> 0 then 0 else Suc (bit_length (m div 2)))"
  by pat_completeness auto
termination
  by (relation "measure nat") auto

declare bit_length.simps [simp del]

definition double_of_int :: "int \<Rightarrow> int" where
  "double_of_int n =
     (if \<bar>n\<bar> \<le> 2 ^ 53 then n
      else (let m = \<bar>n\<bar>;
                e = bit_length m - 53;
                q = m div 2 ^ e;
                r = m mod 2 ^ e;
                q' = (if 2 ^ e < 2 * r \<or> (2 * r = 2 ^ e \<and> odd q) then q + 1 else q)
            in sgn n * (q' * 2 ^ e)))"

text \<open>
  \<^verbatim>\<open>reportRef.transaction((current) => (current || 0) + 1)\<close>
  (\<open>null\<close> and \<open>0\<close> are the falsy numbers a counter can hold, and both count as 0;
  the addition is the addition of doubles).
\<close>

definition report_update :: "int option \<Rightarrow> int option" where
  "report_update current =
     Some (double_of_int ((case current of None \<Rightarrow> 0 | Some n \<Rightarrow> n) + 1))"

definition transaction_reports :: "uid \<Rightarrow> store \<Rightarrow> store" where
  "transaction_reports targetUid s =
     s\<lparr>reports := (reports s)(targetUid := snd (transaction report_update (reports s targetUid)))\<rparr>"

text \<open>
  \<open>db.ref().update(batch)\<close>: a multi-path update. Every path of the batch is written
  (\<open>null\<close> removes the node) in one step of the database, or, when the update is rejected,
  none is.
\<close>

datatype db_write =
    Write_match uid "roomId option"
  | Write_room roomId "room option"
  | Write_queue uid "queue_entry option"

fun apply_write :: "db_write \<Rightarrow> store \<Rightarrow> store" where
  "apply_write (Write_match u v) s = s\<lparr>matches := (matches s)(u := v)\<rparr>"
| "apply_write (Write_room r v) s = s\<lparr>rooms := (rooms s)(r := v)\<rparr>"
| "apply_write (Write_queue u None) s = s\<lparr>queue := remove_child u (queue s)\<rparr>"
| "apply_write (Write_queue u (Some e)) s = s\<lparr>queue := set_child u e (queue s)\<rparr>"

definition update_batch :: "db_write list \<Rightarrow> store \<Rightarrow> store" where
  "update_batch batch s = fold apply_write batch s"

text \<open>
  Whether the database accepts a write is decided by its rules, which are not part of the
  application; \<open>permitted\<close> stands for them. An update with a write that is refused is
  rejected as a whole (\<open>None\<close>: the promise is rejected and \<open>await\<close> throws).
\<close>

definition update_checked :: "(db_write \<Rightarrow> bool) \<Rightarrow> db_write list \<Rightarrow> store \<Rightarrow> store option" where
  "update_checked permitted batch s =
     (if list_all permitted batch then Some (update_batch batch s) else None)"

section \<open>The client (\<open>class VibeApp\<close>)\<close>

datatype role = Caller | Callee

text \<open>
  \<open>this.peerConnection\<close>. Of the \<open>RTCPeerConnection\<close> the code reads
  \<open>currentRemoteDescription\<close> (in the two signaling listeners); \<open>handed\<close> records the
  arguments of the calls of \<open>setRemoteDescription\<close>, oldest first.
\<close>

record peer_connection =
  pc_room :: roomId
  pc_role :: role
  currentRemoteDescription :: "description option"
  handed :: "description list"

text \<open>
  An \<open>async\<close> method runs until its next \<open>await\<close> and is resumed when the awaited
  operation settles. A pending continuation is recorded with the values it closes over.
\<close>

datatype flow =
    JoinQueue_set
  | JoinQueue_once
  | AttemptMatch uid roomId
  | CreateMatch roomId uid

text \<open>
  The fields of \<open>VibeApp\<close> that the matching and feedback code uses, followed by what the
  browser keeps for the client: the stored block list (\<open>localStorage\<close> key
  \<open>vibe_blocked_users\<close>), whether the \<open>value\<close> listener on \<open>matches/<uid>\<close> is
  registered, the pending continuations, and the pending timers as (id, due time) with the
  next timer id. Every timer the matching code sets calls \<open>joinQueue\<close>.
\<close>

record client =
  uid :: uid
  currentRoom :: "roomId option"
  peerConnection :: "peer_connection option"
  isConnected :: bool
  matchTimeout :: "nat option"
  blockedUsers :: "uid list"
  localStorage_blocked :: "uid list option"
  matchListener :: bool
  flows :: "flow list"
  timers :: "(nat \<times> nat) list"
  nextTimer :: nat

text \<open>
  \<^verbatim>\<open>getBlockedUsers() { const blocked = localStorage.getItem('vibe_blocked_users');
      return blocked ? JSON.parse(blocked) : []; }\<close>
\<close>

definition getBlockedUsers :: "uid list option \<Rightarrow> uid list" where
  "getBlockedUsers stored = (case stored of None \<Rightarrow> [] | Some blocked \<Rightarrow> blocked)"

text \<open>The constructor, for a device whose stored id is \<open>u\<close>.\<close>

definition new_client :: "uid \<Rightarrow> uid list option \<Rightarrow> client" where
  "new_client u stored =
     \<lparr>uid = u, currentRoom = None, peerConnection = None, isConnected = False,
      matchTimeout = None, blockedUsers = getBlockedUsers stored,
      localStorage_blocked = stored, matchListener = False, flows = [], timers = [],
      nextTimer = 1\<rparr>"

subsection \<open>\<open>joinQueue\<close>, \<open>attemptMatch\<close>, \<open>createMatch\<close>\<close>

text \<open>
  \<open>joinQueue()\<close> up to its first \<open>await\<close>: it sets the status, logs, registers the
  disconnect rule and issues \<open>myQueueRef.set(...)\<close>.
\<close>

definition joinQueue :: "client \<Rightarrow> client" where
  "joinQueue c = c\<lparr>flows := flows c @ [JoinQueue_set]\<rparr>"

text \<open>
  The \<open>set\<close> has been applied (with the server's time \<open>ts\<close>): the node
  \<open>queue/<uid>\<close> is now exactly \<open>{uid, timestamp}\<close>. The method goes on to
  \<open>await this.queueRef.once('value')\<close>.
\<close>

definition joinQueue_after_set :: "nat \<Rightarrow> store \<times> client \<Rightarrow> store \<times> client" where
  "joinQueue_after_set ts sc =
     (case sc of (s, c) \<Rightarrow>
        (s\<lparr>queue := set_child (uid c)
               \<lparr>qe_uid = Some (uid c), qe_timestamp = Some ts, reservedBy = None\<rparr> (queue s)\<rparr>,
         c\<lparr>flows := flows c @ [JoinQueue_once]\<rparr>))"

text \<open>
  \<open>attemptMatch(otherUid)\<close> up to its \<open>await\<close>: \<open>rid\<close> is what
  \<open>generateRoomId()\<close> returned (\<open>'room_'\<close>, random digits, the clock), then the
  transaction is issued.
\<close>

definition attemptMatch :: "uid \<Rightarrow> roomId \<Rightarrow> client \<Rightarrow> client" where
  "attemptMatch otherUid rid c = c\<lparr>flows := flows c @ [AttemptMatch otherUid rid]\<rparr>"

text \<open>
  The snapshot has arrived: the queue as it is now. With a candidate the method calls
  \<open>attemptMatch\<close> and returns; without one it registers
  \<open>this.matchRef.on('value', this.handleMatchFound)\<close>.
\<close>

definition joinQueue_after_once :: "roomId \<Rightarrow> store \<times> client \<Rightarrow> store \<times> client" where
  "joinQueue_after_once rid sc =
     (case sc of (s, c) \<Rightarrow>
        (case findPartner (Object_keys (queue s)) (uid c) (blockedUsers c) of
           Some otherUid \<Rightarrow> (s, attemptMatch otherUid rid c)
         | None \<Rightarrow> (s, c\<lparr>matchListener := True\<rparr>)))"

text \<open>
  \<open>createMatch(roomId, otherUid)\<close> up to its \<open>await\<close>: the batch is built and
  \<open>update\<close> is issued. \<open>ts\<close> is the server's time, which the database puts in place of
  \<open>ServerValue.TIMESTAMP\<close>.
\<close>

definition createMatch_batch :: "uid \<Rightarrow> roomId \<Rightarrow> uid \<Rightarrow> nat \<Rightarrow> db_write list" where
  "createMatch_batch self rid otherUid ts =
     [Write_match self (Some rid),
      Write_match otherUid (Some rid),
      Write_room rid (Some \<lparr>createdBy = self, createdAt = ts, participants = [self, otherUid],
                           offer = None, answer = None,
                           callerCandidates = [], calleeCandidates = []\<rparr>),
      Write_queue self None,
      Write_queue otherUid None]"

definition createMatch :: "roomId \<Rightarrow> uid \<Rightarrow> client \<Rightarrow> client" where
  "createMatch rid otherUid c = c\<lparr>flows := flows c @ [CreateMatch rid otherUid]\<rparr>"

text \<open>
  The transaction has settled. \<open>result.committed\<close>: go on to \<open>createMatch\<close>;
  otherwise \<open>this.joinQueue()\<close>.
\<close>

definition attemptMatch_after_transaction ::
  "uid \<Rightarrow> roomId \<Rightarrow> store \<times> client \<Rightarrow> store \<times> client" where
  "attemptMatch_after_transaction otherUid rid sc =
     (case sc of (s, c) \<Rightarrow>
        (case transaction_reservedBy otherUid (uid c) (queue s) of
           (committed, q') \<Rightarrow>
             if committed then (s\<lparr>queue := q'\<rparr>, createMatch rid otherUid c)
             else (s, joinQueue c)))"

text \<open>The transaction threw: \<open>catch (error) { ...; this.joinQueue(); }\<close>.\<close>

definition attemptMatch_catch :: "store \<times> client \<Rightarrow> store \<times> client" where
  "attemptMatch_catch sc = (case sc of (s, c) \<Rightarrow> (s, joinQueue c))"

text \<open>
  \<open>startCall(roomId)\<close> and \<open>answerCall(roomId)\<close> up to their first \<open>await\<close>: a new
  \<open>RTCPeerConnection\<close> replaces \<open>this.peerConnection\<close>. What follows (offer and answer
  through \<open>rooms/<roomId>\<close>) is the subject of the section on the signaling listeners.
\<close>

definition startCall :: "roomId \<Rightarrow> client \<Rightarrow> client" where
  "startCall rid c =
     c\<lparr>peerConnection := Some \<lparr>pc_room = rid, pc_role = Caller,
                                 currentRemoteDescription = None, handed = []\<rparr>\<rparr>"

definition answerCall :: "roomId \<Rightarrow> client \<Rightarrow> client" where
  "answerCall rid c =
     c\<lparr>peerConnection := Some \<lparr>pc_room = rid, pc_role = Callee,
                                 currentRemoteDescription = None, handed = []\<rparr>\<rparr>"

text \<open>
  The update has been applied: \<open>this.currentRoom = roomId\<close>, then \<open>startCall\<close>.
\<close>

definition createMatch_after_update ::
  "roomId \<Rightarrow> uid \<Rightarrow> nat \<Rightarrow> store \<times> client \<Rightarrow> store \<times> client" where
  "createMatch_after_update rid otherUid ts sc =
     (case sc of (s, c) \<Rightarrow>
        (update_batch (createMatch_batch (uid c) rid otherUid ts) s,
         startCall rid (c\<lparr>currentRoom := Some rid\<rparr>)))"

text \<open>
  The update was rejected, nothing was written:
  \<open>catch (error) { ...; this.joinQueue(); }\<close>.
\<close>

definition createMatch_catch :: "store \<times> client \<Rightarrow> store \<times> client" where
  "createMatch_catch sc = (case sc of (s, c) \<Rightarrow> (s, joinQueue c))"

text \<open>
  The two together, with the outcome decided by the database:
  \<^verbatim>\<open>try { ...; await this.db.ref().update(batch);
        this.currentRoom = roomId; ...; await this.startCall(roomId); }
  catch (error) { ...; this.joinQueue(); }\<close>
\<close>

definition createMatch_settled ::
  "(db_write \<Rightarrow> bool) \<Rightarrow> roomId \<Rightarrow> uid \<Rightarrow> nat \<Rightarrow> store \<times> client \<Rightarrow> store \<times> client" where
  "createMatch_settled permitted rid otherUid ts sc =
     (case sc of (s, c) \<Rightarrow>
        (case update_checked permitted (createMatch_batch (uid c) rid otherUid ts) s of
           Some s' \<Rightarrow> (s', startCall rid (c\<lparr>currentRoom := Some rid\<rparr>))
         | None \<Rightarrow> (s, joinQueue c)))"

text \<open>
  \<^verbatim>\<open>handleMatchFound(snapshot) { const roomId = snapshot.val();
      if (roomId && roomId !== this.currentRoom) {
          this.currentRoom = roomId; ...; this.answerCall(roomId); } }\<close>
  The empty string is falsy.
\<close>

definition handleMatchFound :: "roomId option \<Rightarrow> client \<Rightarrow> client" where
  "handleMatchFound v c =
     (case v of
        None \<Rightarrow> c
      | Some rid \<Rightarrow>
          if rid \<noteq> [] \<and> Some rid \<noteq> currentRoom c
          then answerCall rid (c\<lparr>currentRoom := Some rid\<rparr>)
          else c)"

subsection \<open>\<open>cleanup\<close> and \<open>handleNext\<close>\<close>

text \<open>
  \<open>cleanup()\<close>: closes and drops the peer connection, removes the listener on
  \<open>matches/<uid>\<close>, removes the own Match row when \<open>currentRoom\<close> is set, and removes
  the own queue entry. The two \<open>remove()\<close> calls are not awaited; they are taken to reach
  the database at once.
\<close>

definition cleanup :: "store \<times> client \<Rightarrow> store \<times> client" where
  "cleanup sc =
     (case sc of (s, c) \<Rightarrow>
        (let s1 = (case currentRoom c of
                     None \<Rightarrow> s
                   | Some _ \<Rightarrow> s\<lparr>matches := (matches s)(uid c := None)\<rparr>)
         in (s1\<lparr>queue := remove_child (uid c) (queue s1)\<rparr>,
             c\<lparr>peerConnection := None, matchListener := False, currentRoom := None,
               isConnected := False\<rparr>)))"

definition clearTimeout :: "nat option \<Rightarrow> client \<Rightarrow> client" where
  "clearTimeout t c =
     (case t of None \<Rightarrow> c | Some i \<Rightarrow> c\<lparr>timers := filter (\<lambda>p. fst p \<noteq> i) (timers c)\<rparr>)"

text \<open>\<open>setTimeout(() => this.joinQueue(), delay)\<close> called at time \<open>now\<close>; returns the id.\<close>

definition setTimeout :: "nat \<Rightarrow> nat \<Rightarrow> client \<Rightarrow> nat \<times> client" where
  "setTimeout now delay c =
     (nextTimer c,
      c\<lparr>timers := timers c @ [(nextTimer c, now + delay)], nextTimer := Suc (nextTimer c)\<rparr>)"

text \<open>
  \<^verbatim>\<open>handleNext() { this.logEvent('skip'); this.cleanup();
      clearTimeout(this.matchTimeout);
      this.matchTimeout = setTimeout(() => { this.joinQueue(); }, 500); }\<close>
\<close>

definition handleNext :: "nat \<Rightarrow> store \<times> client \<Rightarrow> store \<times> client" where
  "handleNext now sc =
     (case cleanup sc of (s, c) \<Rightarrow>
        (case setTimeout now 500 (clearTimeout (matchTimeout c) c) of
           (i, c') \<Rightarrow> (s, c'\<lparr>matchTimeout := Some i\<rparr>)))"

text \<open>
  \<^verbatim>\<open>handleConnectionError() { ...; this.cleanup();
      setTimeout(() => { this.joinQueue(); }, 2000); }
  handleCallEnded() { ...; this.isConnected = false; this.cleanup();
      setTimeout(() => { this.joinQueue(); }, 1000); }\<close>
  Neither keeps the id of its timer.
\<close>

definition handleConnectionError :: "nat \<Rightarrow> store \<times> client \<Rightarrow> store \<times> client" where
  "handleConnectionError now sc =
     (case cleanup sc of (s, c) \<Rightarrow> (s, snd (setTimeout now 2000 c)))"

definition handleCallEnded :: "nat \<Rightarrow> store \<times> client \<Rightarrow> store \<times> client" where
  "handleCallEnded now sc =
     (case cleanup (fst sc, (snd sc)\<lparr>isConnected := False\<rparr>) of
        (s, c) \<Rightarrow> (s, snd (setTimeout now 1000 c)))"

text \<open>
  The event loop at time \<open>now\<close>: every pending timer that is due runs its callback, which
  is \<open>joinQueue\<close>, and is gone.
\<close>

definition fire_timers :: "nat \<Rightarrow> client \<Rightarrow> client" where
  "fire_timers now c =
     (fold (\<lambda>_. joinQueue) (filter (\<lambda>p. snd p \<le> now) (timers c)) c)
       \<lparr>timers := filter (\<lambda>p. \<not> snd p \<le> now) (timers c)\<rparr>"

text \<open>A skip trigger at time \<open>t\<close>: timers that are due have run, then \<open>handleNext\<close>.\<close>

definition skip_at :: "nat \<Rightarrow> store \<times> client \<Rightarrow> store \<times> client" where
  "skip_at t sc = handleNext t (fst sc, fire_timers t (snd sc))"

text \<open>Consecutive triggers are less than the 500 ms of \<open>handleNext\<close> apart.\<close>

fun rapid :: "nat list \<Rightarrow> bool" where
  "rapid [] = True"
| "rapid [t] = True"
| "rapid (t # t' # ts) = (t \<le> t' \<and> t' < t + 500 \<and> rapid (t' # ts))"

subsection \<open>\<open>handleReport\<close>\<close>

text \<open>
  \<^verbatim>\<open>addToBlockedUsers(uid) { if (!this.blockedUsers.includes(uid)) {
      this.blockedUsers.push(uid);
      localStorage.setItem('vibe_blocked_users', JSON.stringify(this.blockedUsers)); } }\<close>
\<close>

definition addToBlockedUsers :: "uid \<Rightarrow> client \<Rightarrow> client" where
  "addToBlockedUsers u c =
     (if u \<in> set (blockedUsers c) then c
      else c\<lparr>blockedUsers := blockedUsers c @ [u],
             localStorage_blocked := Some (blockedUsers c @ [u])\<rparr>)"

text \<open>
  \<open>getCurrentRoomParticipants()\<close>: \<open>[]\<close> without a current room, when the read throws
  (\<open>read_ok\<close> is false) and when the value is \<open>null\<close>.
\<close>

definition getCurrentRoomParticipants :: "bool \<Rightarrow> store \<Rightarrow> client \<Rightarrow> uid list" where
  "getCurrentRoomParticipants read_ok s c =
     (case currentRoom c of
        None \<Rightarrow> []
      | Some rid \<Rightarrow>
          if \<not> read_ok then []
          else (case rooms s rid of None \<Rightarrow> [] | Some r \<Rightarrow> participants r))"

text \<open>
  \<open>handleReport()\<close> at time \<open>now\<close>. \<open>participants.find(uid => uid !== this.uid)\<close> is
  the first participant that is not the reporter; \<open>if (targetUid)\<close> fails for
  \<open>undefined\<close> and for the empty string. When the transaction throws
  (\<open>tx_ok\<close> is false) the \<open>catch\<close> only logs. The steps of other clients between the two
  awaits are not part of this function.
\<close>

definition handleReport :: "bool \<Rightarrow> bool \<Rightarrow> nat \<Rightarrow> store \<times> client \<Rightarrow> store \<times> client" where
  "handleReport read_ok tx_ok now sc =
     (case sc of (s, c) \<Rightarrow>
        (case currentRoom c of
           None \<Rightarrow> (s, c)
         | Some _ \<Rightarrow>
             (case List.find (\<lambda>u. u \<noteq> uid c) (getCurrentRoomParticipants read_ok s c) of
                None \<Rightarrow> (s, c)
              | Some targetUid \<Rightarrow>
                  if targetUid = [] then (s, c)
                  else if \<not> tx_ok then (s, c)
                  else handleNext now
                         (transaction_reports targetUid s, addToBlockedUsers targetUid c))))"

section \<open>The signaling listeners (\<open>startCall\<close>, \<open>answerCall\<close>)\<close>

text \<open>
  \<^verbatim>\<open>this.db.ref(`rooms/${roomId}/answer`).on('value', async (snapshot) => {
      const answer = snapshot.val();
      if (answer && !this.peerConnection.currentRemoteDescription) {
          await this.peerConnection.setRemoteDescription(answer); } });\<close>
  and the same guard on \<open>offer\<close> in \<open>answerCall\<close>, where the handler goes on to create
  and send the answer. The callback is registered for the room \<open>rid\<close> of the call
  (\<open>answerCall\<close> registers it before its first \<open>await\<close>) and is never removed:
  \<open>cleanup\<close> calls \<open>off()\<close> on \<open>matches/<uid>\<close> and on \<open>rooms/<room>\<close>, not on
  \<open>rooms/<room>/offer\<close> or \<open>answer\<close>. A delivery runs the callback as far as its first
  \<open>await\<close>: it reads \<open>this.peerConnection\<close> as it is then, whichever call made it,
  reads the guard and calls \<open>setRemoteDescription\<close>. Without a connection the read of
  \<open>this.peerConnection.currentRemoteDescription\<close> throws and nothing happens.
\<close>

definition remote_listener :: "roomId \<Rightarrow> description option \<Rightarrow> client \<Rightarrow> client" where
  "remote_listener rid v c =
     (case v of
        None \<Rightarrow> c
      | Some d \<Rightarrow>
          (case peerConnection c of
             None \<Rightarrow> c
           | Some p \<Rightarrow>
               if currentRemoteDescription p = None
               then c\<lparr>peerConnection := Some (p\<lparr>handed := handed p @ [d]\<rparr>)\<rparr>
               else c))"

text \<open>
  The connection makes a description its \<open>currentRemoteDescription\<close> later, when the
  negotiation primitive has applied it (for the caller when \<open>setRemoteDescription(answer)\<close>
  has finished, for the callee when its own answer has been set).
\<close>

definition applied :: "description \<Rightarrow> client \<Rightarrow> client" where
  "applied d c =
     (case peerConnection c of
        None \<Rightarrow> c
      | Some p \<Rightarrow> c\<lparr>peerConnection := Some (p\<lparr>currentRemoteDescription := Some d\<rparr>)\<rparr>)"

text \<open>What has been handed to the connection the client has now, and the room of that connection.\<close>

definition handed_over :: "client \<Rightarrow> description list" where
  "handed_over c = (case peerConnection c of None \<Rightarrow> [] | Some p \<Rightarrow> handed p)"

definition connection_room :: "client \<Rightarrow> roomId option" where
  "connection_room c = map_option pc_room (peerConnection c)"

section \<open>Several clients on one database\<close>

text \<open>
  The clients share nothing but the database. A step of the whole is one client's method
  being called or one of its pending continuations being resumed; the events carry what
  the environment supplies (server time, generated room id, the clock).
  \<open>Update_settled\<close> is the batch of \<open>createMatch\<close> reaching a database with the given
  rules. \<open>Connection_failed\<close> and \<open>Call_ended\<close> are the calls of
  \<open>handleConnectionError\<close> (from the connection's state callbacks on \<open>failed\<close> and from
  the \<open>catch\<close> of \<open>startCall\<close> and \<open>answerCall\<close>) and of \<open>handleCallEnded\<close> (on
  \<open>closed\<close>).
\<close>

record world =
  db :: store
  clients :: "uid \<Rightarrow> client"

definition initial_world :: world where
  "initial_world = \<lparr>db = empty_store, clients = (\<lambda>u. new_client u None)\<rparr>"

datatype event =
    ShowApp uid
  | Set_resolved uid nat
  | Set_rejected uid
  | Once_resolved uid roomId
  | Once_rejected uid
  | Transaction_resolved uid
  | Transaction_rejected uid
  | Update_resolved uid nat
  | Update_rejected uid
  | Update_settled uid nat "db_write \<Rightarrow> bool"
  | Match_value uid
  | Next uid nat
  | Timers uid nat
  | Report uid bool bool nat
  | Connection_failed uid nat
  | Call_ended uid nat

text \<open>The oldest pending continuation of a kind, and the others.\<close>

fun take_flow :: "(flow \<Rightarrow> bool) \<Rightarrow> flow list \<Rightarrow> (flow \<times> flow list) option" where
  "take_flow P [] = None"
| "take_flow P (f # fs) =
     (if P f then Some (f, fs)
      else (case take_flow P fs of None \<Rightarrow> None | Some (g, rest) \<Rightarrow> Some (g, f # rest)))"

fun is_AttemptMatch :: "flow \<Rightarrow> bool" where
  "is_AttemptMatch (AttemptMatch _ _) = True"
| "is_AttemptMatch _ = False"

fun is_CreateMatch :: "flow \<Rightarrow> bool" where
  "is_CreateMatch (CreateMatch _ _) = True"
| "is_CreateMatch _ = False"

definition resume ::
  "uid \<Rightarrow> (flow \<Rightarrow> bool) \<Rightarrow> (flow \<Rightarrow> store \<times> client \<Rightarrow> store \<times> client) \<Rightarrow> world \<Rightarrow> world" where
  "resume u P k w =
     (case take_flow P (flows (clients w u)) of
        None \<Rightarrow> w
      | Some (f, rest) \<Rightarrow>
          (case k f (db w, (clients w u)\<lparr>flows := rest\<rparr>) of
             (s', c') \<Rightarrow> w\<lparr>db := s', clients := (clients w)(u := c')\<rparr>))"

definition local_step :: "uid \<Rightarrow> (store \<times> client \<Rightarrow> store \<times> client) \<Rightarrow> world \<Rightarrow> world" where
  "local_step u k w =
     (case k (db w, clients w u) of
        (s', c') \<Rightarrow> w\<lparr>db := s', clients := (clients w)(u := c')\<rparr>)"

fun step :: "event \<Rightarrow> world \<Rightarrow> world" where
  "step (ShowApp u) w = local_step u (\<lambda>sc. (fst sc, joinQueue (snd sc))) w"
| "step (Set_resolved u ts) w =
     resume u (\<lambda>f. f = JoinQueue_set) (\<lambda>_. joinQueue_after_set ts) w"
| "step (Set_rejected u) w = resume u (\<lambda>f. f = JoinQueue_set) (\<lambda>_ sc. sc) w"
| "step (Once_resolved u rid) w =
     resume u (\<lambda>f. f = JoinQueue_once) (\<lambda>_. joinQueue_after_once rid) w"
| "step (Once_rejected u) w = resume u (\<lambda>f. f = JoinQueue_once) (\<lambda>_ sc. sc) w"
| "step (Transaction_resolved u) w =
     resume u is_AttemptMatch
       (\<lambda>f. case f of AttemptMatch otherUid rid \<Rightarrow> attemptMatch_after_transaction otherUid rid
                     | _ \<Rightarrow> (\<lambda>sc. sc)) w"
| "step (Transaction_rejected u) w = resume u is_AttemptMatch (\<lambda>_. attemptMatch_catch) w"
| "step (Update_resolved u ts) w =
     resume u is_CreateMatch
       (\<lambda>f. case f of CreateMatch rid otherUid \<Rightarrow> createMatch_after_update rid otherUid ts
                     | _ \<Rightarrow> (\<lambda>sc. sc)) w"
| "step (Update_rejected u) w = resume u is_CreateMatch (\<lambda>_. createMatch_catch) w"
| "step (Update_settled u ts permitted) w =
     resume u is_CreateMatch
       (\<lambda>f. case f of CreateMatch rid otherUid \<Rightarrow> createMatch_settled permitted rid otherUid ts
                     | _ \<Rightarrow> (\<lambda>sc. sc)) w"
| "step (Match_value u) w =
     local_step u
       (\<lambda>sc. (fst sc, if matchListener (snd sc)
                       then handleMatchFound (matches (fst sc) (uid (snd sc))) (snd sc)
                       else snd sc)) w"
| "step (Next u now) w = local_step u (handleNext now) w"
| "step (Timers u now) w = local_step u (\<lambda>sc. (fst sc, fire_timers now (snd sc))) w"
| "step (Report u read_ok tx_ok now) w = local_step u (handleReport read_ok tx_ok now) w"
| "step (Connection_failed u now) w = local_step u (handleConnectionError now) w"
| "step (Call_ended u now) w = local_step u (handleCallEnded now) w"

text \<open>A run: the events in the order in which they happen.\<close>

definition run :: "event list \<Rightarrow> world \<Rightarrow> world" where
  "run es w = fold step es w"

text \<open>Report transactions, one per listed target, in the order in which the database takes them.\<close>

definition report_all :: "uid list \<Rightarrow> store \<Rightarrow> store" where
  "report_all targets s = fold transaction_reports targets s"

definition report_count :: "store \<Rightarrow> uid \<Rightarrow> int" where
  "report_count s u = (case reports s u of None \<Rightarrow> 0 | Some n \<Rightarrow> n)"

section \<open>Example runs\<close>

text \<open>
  Runs from the empty database, used to evaluate the definitions. In \<open>world_reserved\<close>,
  \<open>user_b\<close> waits in the queue and \<open>user_c\<close> has reserved it and is about to write the
  match. In \<open>world_lost\<close>, \<open>user_a\<close> has joined as well, has chosen \<open>user_b\<close> from its
  snapshot and waits for its own transaction on \<open>user_b\<close>. In \<open>world_aborted\<close> that
  transaction has been aborted, and in \<open>world_rejoined\<close> \<open>user_a\<close> has written its
  queue entry again.
  \<open>world_matched\<close> is \<open>world_reserved\<close> after the batch of \<open>user_c\<close>.
\<close>

definition world_reserved :: world where
  "world_reserved =
     run [ShowApp ''user_b'', Set_resolved ''user_b'' 1, Once_resolved ''user_b'' ''room_b'',
          ShowApp ''user_c'', Set_resolved ''user_c'' 2, Once_resolved ''user_c'' ''room_c'',
          Transaction_resolved ''user_c''] initial_world"

definition world_lost :: world where
  "world_lost =
     run [ShowApp ''user_a'', Set_resolved ''user_a'' 3, Once_resolved ''user_a'' ''room_a'']
       world_reserved"

definition world_aborted :: world where
  "world_aborted = step (Transaction_resolved ''user_a'') world_lost"

definition world_rejoined :: world where
  "world_rejoined = step (Set_resolved ''user_a'' 4) world_aborted"

definition world_matched :: world where
  "world_matched = step (Update_resolved ''user_c'' 3) world_reserved"

text \<open>
  A run of four clients. \<open>user_b\<close> joins and listens; \<open>user_c\<close> joins and reserves
  \<open>user_b\<close>; \<open>user_a\<close> joins and chooses \<open>user_b\<close>; \<open>user_d\<close> joins, reserves
  \<open>user_a\<close> and writes the match of \<open>user_d\<close> and \<open>user_a\<close>; then the transaction of
  \<open>user_a\<close> on \<open>user_b\<close> is aborted and \<open>user_a\<close> runs \<open>joinQueue\<close> again.
\<close>

definition racing_run :: "event list" where
  "racing_run =
     [ShowApp ''user_b'', Set_resolved ''user_b'' 1, Once_resolved ''user_b'' ''room_b'',
      ShowApp ''user_c'', Set_resolved ''user_c'' 2, Once_resolved ''user_c'' ''room_c'',
      Transaction_resolved ''user_c'',
      ShowApp ''user_a'', Set_resolved ''user_a'' 3, Once_resolved ''user_a'' ''room_a'',
      ShowApp ''user_d'', Set_resolved ''user_d'' 4, Once_resolved ''user_d'' ''room_d'',
      Transaction_resolved ''user_d'', Update_resolved ''user_d'' 5,
      Transaction_resolved ''user_a'', Set_resolved ''user_a'' 6]"

text \<open>The same run, after which \<open>user_e\<close> joins, reserves \<open>user_a\<close> and writes their match.\<close>

definition racing_run_rematched :: "event list" where
  "racing_run_rematched =
     racing_run @
     [ShowApp ''user_e'', Set_resolved ''user_e'' 7, Once_resolved ''user_e'' ''room_e'',
      Transaction_resolved ''user_e'', Update_resolved ''user_e'' 8]"

text \<open>
  \<open>world_contended\<close>: \<open>user_a\<close> listens in the queue, and \<open>user_b\<close> and
  \<open>user_c\<close> have both chosen \<open>user_a\<close> from their snapshots and wait for their
  transactions. \<open>world_contended_matched\<close>: the transaction and the batch of \<open>user_c\<close>
  have gone through, the transaction of \<open>user_b\<close> has not arrived yet.
\<close>

definition world_contended :: world where
  "world_contended =
     run [ShowApp ''user_a'', Set_resolved ''user_a'' 1, Once_resolved ''user_a'' ''room_a'',
          ShowApp ''user_b'', Set_resolved ''user_b'' 2, Once_resolved ''user_b'' ''room_b'',
          ShowApp ''user_c'', Set_resolved ''user_c'' 3, Once_resolved ''user_c'' ''room_c'']
       initial_world"

definition world_contended_matched :: world where
  "world_contended_matched =
     run [Transaction_resolved ''user_c'', Update_resolved ''user_c'' 4] world_contended"


text \<open>
  The run to \<open>world_matched\<close>, after which the connection of the caller \<open>user_c\<close>
  fails at time 0.
\<close>

definition failed_run :: "event list" where
  "failed_run =
     [ShowApp ''user_b'', Set_resolved ''user_b'' 1, Once_resolved ''user_b'' ''room_b'',
      ShowApp ''user_c'', Set_resolved ''user_c'' 2, Once_resolved ''user_c'' ''room_c'',
      Transaction_resolved ''user_c'', Update_resolved ''user_c'' 3,
      Connection_failed ''user_c'' 0]"

text \<open>\<open>world_matched\<close> with the report counter of \<open>user_b\<close> at \<open>2^53\<close>.\<close>

definition world_saturated :: world where
  "world_saturated =
     world_matched\<lparr>db := (db world_matched)
       \<lparr>reports := (reports (db world_matched))(''user_b'' \<mapsto> 9007199254740992)\<rparr>\<rparr>"

text \<open>
  A client after a first call as callee in \<open>room_1\<close> (the offer delivered and applied),
  a skip at time 10 and a second match in \<open>room_2\<close>.
\<close>

definition client_second_call :: client where
  "client_second_call =
     handleMatchFound (Some ''room_2'')
       (snd (handleNext 10
          (empty_store,
           applied (''offer'', ''v=1'')
             (remote_listener ''room_1'' (Some (''offer'', ''v=1''))
                (handleMatchFound (Some ''room_1'') (new_client ''user_a'' None))))))"

text \<open>
  A run of three clients. \<open>user_a\<close> joins and listens; \<open>user_b\<close> joins and chooses
  \<open>user_a\<close>; \<open>user_c\<close> joins, chooses \<open>user_a\<close> as well, reserves it and writes
  their match; then the transaction of \<open>user_b\<close> on \<open>user_a\<close> arrives, and after it
  the batch of \<open>user_b\<close>.
\<close>

definition overlapping_run :: "event list" where
  "overlapping_run =
     [ShowApp ''user_a'', Set_resolved ''user_a'' 1, Once_resolved ''user_a'' ''room_a'',
      ShowApp ''user_b'', Set_resolved ''user_b'' 2, Once_resolved ''user_b'' ''room_b'',
      ShowApp ''user_c'', Set_resolved ''user_c'' 3, Once_resolved ''user_c'' ''room_c'',
      Transaction_resolved ''user_c'', Update_resolved ''user_c'' 4,
      Transaction_resolved ''user_b'']"

section \<open>Facts about the store primitives\<close>

lemma map_of_set_child: "map_of (set_child k v kvs) = (map_of kvs)(k \<mapsto> v)"
  by (induction kvs) (auto simp: fun_eq_iff)

lemma map_of_remove_child: "map_of (remove_child k kvs) = (map_of kvs)(k := None)"
  by (induction kvs) (auto simp: remove_child_def fun_eq_iff)

lemma keys_set_child: "set (Object_keys (set_child k v kvs)) = insert k (set (Object_keys kvs))"
  by (simp add: Object_keys_def dom_map_of_conv_image_fst [symmetric] map_of_set_child)

lemma keys_remove_child: "set (Object_keys (remove_child k kvs)) = set (Object_keys kvs) - {k}"
  by (auto simp: Object_keys_def remove_child_def)

lemma keys_map_of: "k \<in> set (Object_keys kvs) \<longleftrightarrow> map_of kvs k \<noteq> None"
  by (induction kvs) (auto simp: Object_keys_def)

lemma sorted_set_child:
  "sorted_wrt (<) (Object_keys kvs) \<Longrightarrow> sorted_wrt (<) (Object_keys (set_child k v kvs))"
proof (induction kvs)
  case Nil
  then show ?case by (simp add: Object_keys_def)
next
  case (Cons kv kvs)
  obtain k' v' where kv: "kv = (k', v')" by (cases kv)
  from Cons.prems kv have tail: "sorted_wrt (<) (Object_keys kvs)" and
    above: "\<forall>x\<in>set (Object_keys kvs). k' < x"
    by (simp_all add: Object_keys_def)
  show ?case
  proof (cases "k = k'")
    case True
    with Cons.prems kv show ?thesis by (simp add: Object_keys_def)
  next
    case False
    show ?thesis
    proof (cases "k < k'")
      case True
      with False Cons.prems kv above show ?thesis
        by (auto simp: Object_keys_def)
    next
      case ge: False
      with False have "k' < k" by simp
      moreover have "sorted_wrt (<) (Object_keys (set_child k v kvs))"
        using Cons.IH tail by simp
      moreover have "set (Object_keys (set_child k v kvs)) = insert k (set (Object_keys kvs))"
        by (rule keys_set_child)
      ultimately show ?thesis using False ge kv above
        by (simp add: Object_keys_def)
    qed
  qed
qed

lemma sorted_remove_child:
  "sorted_wrt (<) (Object_keys kvs) \<Longrightarrow> sorted_wrt (<) (Object_keys (remove_child k kvs))"
  by (induction kvs) (auto simp: Object_keys_def remove_child_def)


section \<open>Facts about the transactions\<close>

lemma transaction_reservedBy_outcome:
  "fst (transaction_reservedBy otherUid self q) = (reservation q otherUid = None)"
  by (simp add: transaction_reservedBy_def transaction_def reserve_update_def Let_def)

lemma transaction_reservedBy_lost:
  "reservation q otherUid \<noteq> None \<Longrightarrow> transaction_reservedBy otherUid self q = (False, q)"
  by (simp add: transaction_reservedBy_def transaction_def reserve_update_def Let_def)

lemma transaction_reservedBy_committed:
  "reservation q otherUid = None \<Longrightarrow>
     reservation (snd (transaction_reservedBy otherUid self q)) otherUid = Some self"
  by (simp add: transaction_reservedBy_def transaction_def reserve_update_def Let_def
      reservation_def map_of_set_child split: option.splits)

lemma double_of_int_exact: "\<bar>n\<bar> \<le> 2 ^ 53 \<Longrightarrow> double_of_int n = n"
  by (simp add: double_of_int_def)

lemma report_count_transaction:
  "report_count (transaction_reports u s) t =
     (if u = t then double_of_int (report_count s t + 1) else report_count s t)"
  by (simp add: report_count_def transaction_reports_def transaction_def report_update_def
      split: option.splits)

section \<open>Facts about resumed continuations\<close>

lemma take_flow_step:
  "take_flow P (flows (clients w u)) = Some (f, rest) \<Longrightarrow>
     resume u P k w =
       (case k f (db w, (clients w u)\<lparr>flows := rest\<rparr>) of
          (s', c') \<Rightarrow> w\<lparr>db := s', clients := (clients w)(u := c')\<rparr>)"
  by (simp add: resume_def)

lemma update_batch_createMatch:
  "update_batch (createMatch_batch self rid otherUid ts) s =
     s\<lparr>matches := (matches s)(self \<mapsto> rid, otherUid \<mapsto> rid),
       rooms := (rooms s)(rid \<mapsto> \<lparr>createdBy = self, createdAt = ts,
                  participants = [self, otherUid], offer = None, answer = None,
                  callerCandidates = [], calleeCandidates = []\<rparr>),
       queue := remove_child otherUid (remove_child self (queue s))\<rparr>"
  by (simp add: update_batch_def createMatch_batch_def)

lemma createMatch_settled_outcome:
  "createMatch_settled permitted rid otherUid ts (s, c) =
     (if list_all permitted (createMatch_batch (uid c) rid otherUid ts)
      then createMatch_after_update rid otherUid ts (s, c)
      else createMatch_catch (s, c))"
  by (simp add: createMatch_settled_def update_checked_def createMatch_after_update_def
      createMatch_catch_def)

lemma joinQueue_after_once_choice:
  "joinQueue_after_once rid (s, c) =
     (s, case findPartner (Object_keys (queue s)) (uid c) (blockedUsers c) of
           Some otherUid \<Rightarrow> c\<lparr>flows := flows c @ [AttemptMatch otherUid rid]\<rparr>
         | None \<Rightarrow> c\<lparr>matchListener := True\<rparr>)"
  by (simp add: joinQueue_after_once_def attemptMatch_def split: option.splits)

section \<open>Facts about \<open>handleNext\<close> and the timers\<close>

lemma handleNext_client:
  "snd (handleNext now (s, c)) =
     c\<lparr>peerConnection := None, matchListener := False, currentRoom := None, isConnected := False,
       timers := (case matchTimeout c of None \<Rightarrow> timers c
                  | Some i \<Rightarrow> filter (\<lambda>p. fst p \<noteq> i) (timers c)) @ [(nextTimer c, now + 500)],
       nextTimer := Suc (nextTimer c),
       matchTimeout := Some (nextTimer c)\<rparr>"
  by (simp add: handleNext_def cleanup_def setTimeout_def clearTimeout_def Let_def
      split: option.splits)

lemma handleNext_store:
  "fst (handleNext now (s, c)) =
     s\<lparr>matches := (case currentRoom c of None \<Rightarrow> matches s | Some _ \<Rightarrow> (matches s)(uid c := None)),
       queue := remove_child (uid c) (queue s)\<rparr>"
  by (simp add: handleNext_def cleanup_def setTimeout_def clearTimeout_def Let_def
      split: option.splits prod.splits)

section \<open>The queue stays in key order\<close>

lemma resume_db:
  assumes "\<And>f s c. P s \<Longrightarrow> P (fst (k f (s, c)))" and "P (db w)"
  shows "P (db (resume u Q k w))"
proof (cases "take_flow Q (flows (clients w u))")
  case None
  with assms(2) show ?thesis by (simp add: resume_def)
next
  case (Some a)
  obtain f rest where a: "a = (f, rest)" by (cases a)
  obtain s' c' where k: "k f (db w, (clients w u)\<lparr>flows := rest\<rparr>) = (s', c')"
    by (cases "k f (db w, (clients w u)\<lparr>flows := rest\<rparr>)")
  have "P s'" using assms(1) [OF assms(2), of f "(clients w u)\<lparr>flows := rest\<rparr>"] k by simp
  with Some a k show ?thesis by (simp add: resume_def)
qed

lemma local_step_db:
  assumes "\<And>s c. P s \<Longrightarrow> P (fst (k (s, c)))" and "P (db w)"
  shows "P (db (local_step u k w))"
proof -
  obtain s' c' where k: "k (db w, clients w u) = (s', c')" by (cases "k (db w, clients w u)")
  have "P s'" using assms(1) [OF assms(2), of "clients w u"] k by simp
  with k show ?thesis by (simp add: local_step_def)
qed

lemma sorted_transaction_reservedBy:
  "sorted_wrt (<) (Object_keys q) \<Longrightarrow>
     sorted_wrt (<) (Object_keys (snd (transaction_reservedBy otherUid self q)))"
  by (simp add: transaction_reservedBy_def transaction_def Let_def sorted_set_child
      split: option.splits)

lemma sorted_handleNext:
  "sorted_wrt (<) (Object_keys (queue s)) \<Longrightarrow>
     sorted_wrt (<) (Object_keys (queue (fst (handleNext now (s, c)))))"
  by (simp add: handleNext_store sorted_remove_child)

lemma sorted_handleReport:
  "sorted_wrt (<) (Object_keys (queue s)) \<Longrightarrow>
     sorted_wrt (<) (Object_keys (queue (fst (handleReport read_ok tx_ok now (s, c)))))"
  by (simp add: handleReport_def sorted_handleNext transaction_reports_def
      split: option.splits)

lemma sorted_handleConnectionError:
  "sorted_wrt (<) (Object_keys (queue s)) \<Longrightarrow>
     sorted_wrt (<) (Object_keys (queue (fst (handleConnectionError now (s, c)))))"
  by (simp add: handleConnectionError_def cleanup_def Let_def sorted_remove_child
      split: option.splits)

lemma sorted_handleCallEnded:
  "sorted_wrt (<) (Object_keys (queue s)) \<Longrightarrow>
     sorted_wrt (<) (Object_keys (queue (fst (handleCallEnded now (s, c)))))"
  by (simp add: handleCallEnded_def cleanup_def Let_def sorted_remove_child
      split: option.splits)

lemma step_sorted:
  assumes "sorted_wrt (<) (Object_keys (queue (db w)))"
  shows "sorted_wrt (<) (Object_keys (queue (db (step e w))))"
proof (cases e)
  case (ShowApp u)
  with assms show ?thesis by (simp add: local_step_def)
next
  case (Set_resolved u ts)
  have "\<And>s c. sorted_wrt (<) (Object_keys (queue s)) \<Longrightarrow>
      sorted_wrt (<) (Object_keys (queue (fst (joinQueue_after_set ts (s, c)))))"
    by (simp add: joinQueue_after_set_def sorted_set_child)
  then show ?thesis
    using Set_resolved assms
      resume_db [where P = "\<lambda>s. sorted_wrt (<) (Object_keys (queue s))"
        and k = "\<lambda>_. joinQueue_after_set ts"]
    by simp
next
  case (Set_rejected u)
  then show ?thesis
    using assms resume_db [where P = "\<lambda>s. sorted_wrt (<) (Object_keys (queue s))"
        and k = "\<lambda>_ sc. sc"]
    by simp
next
  case (Once_resolved u rid)
  have "\<And>s c. fst (joinQueue_after_once rid (s, c)) = s"
    by (simp add: joinQueue_after_once_choice)
  then show ?thesis
    using Once_resolved assms
      resume_db [where P = "\<lambda>s. sorted_wrt (<) (Object_keys (queue s))"
        and k = "\<lambda>_. joinQueue_after_once rid"]
    by simp
next
  case (Once_rejected u)
  then show ?thesis
    using assms resume_db [where P = "\<lambda>s. sorted_wrt (<) (Object_keys (queue s))"
        and k = "\<lambda>_ sc. sc"]
    by simp
next
  case (Transaction_resolved u)
  have "\<And>f s c. sorted_wrt (<) (Object_keys (queue s)) \<Longrightarrow>
      sorted_wrt (<) (Object_keys (queue (fst ((case f of
          AttemptMatch otherUid rid \<Rightarrow> attemptMatch_after_transaction otherUid rid
        | _ \<Rightarrow> (\<lambda>sc. sc)) (s, c)))))"
  proof -
    fix f and s :: store and c
    assume s: "sorted_wrt (<) (Object_keys (queue s))"
    show "sorted_wrt (<) (Object_keys (queue (fst ((case f of
          AttemptMatch otherUid rid \<Rightarrow> attemptMatch_after_transaction otherUid rid
        | _ \<Rightarrow> (\<lambda>sc. sc)) (s, c)))))"
    proof (cases f)
      case (AttemptMatch otherUid rid)
      obtain committed q' where t: "transaction_reservedBy otherUid (uid c) (queue s) = (committed, q')"
        by (cases "transaction_reservedBy otherUid (uid c) (queue s)")
      have "sorted_wrt (<) (Object_keys q')"
        using sorted_transaction_reservedBy [OF s, of otherUid "uid c"] t by simp
      with AttemptMatch t s show ?thesis
        by (simp add: attemptMatch_after_transaction_def)
    qed (simp_all add: s)
  qed
  then show ?thesis
    using Transaction_resolved assms
      resume_db [where P = "\<lambda>s. sorted_wrt (<) (Object_keys (queue s))"
        and k = "\<lambda>f. case f of
          AttemptMatch otherUid rid \<Rightarrow> attemptMatch_after_transaction otherUid rid
        | _ \<Rightarrow> (\<lambda>sc. sc)"]
    by simp
next
  case (Transaction_rejected u)
  then show ?thesis
    using assms resume_db [where P = "\<lambda>s. sorted_wrt (<) (Object_keys (queue s))"
        and k = "\<lambda>_. attemptMatch_catch"]
    by (simp add: attemptMatch_catch_def)
next
  case (Update_resolved u ts)
  have "\<And>f s c. sorted_wrt (<) (Object_keys (queue s)) \<Longrightarrow>
      sorted_wrt (<) (Object_keys (queue (fst ((case f of
          CreateMatch rid otherUid \<Rightarrow> createMatch_after_update rid otherUid ts
        | _ \<Rightarrow> (\<lambda>sc. sc)) (s, c)))))"
    by (simp add: createMatch_after_update_def update_batch_createMatch sorted_remove_child
        split: flow.splits)
  then show ?thesis
    using Update_resolved assms
      resume_db [where P = "\<lambda>s. sorted_wrt (<) (Object_keys (queue s))"
        and k = "\<lambda>f. case f of
          CreateMatch rid otherUid \<Rightarrow> createMatch_after_update rid otherUid ts
        | _ \<Rightarrow> (\<lambda>sc. sc)"]
    by simp
next
  case (Update_rejected u)
  then show ?thesis
    using assms resume_db [where P = "\<lambda>s. sorted_wrt (<) (Object_keys (queue s))"
        and k = "\<lambda>_. createMatch_catch"]
    by (simp add: createMatch_catch_def)
next
  case (Update_settled u ts permitted)
  have "\<And>f s c. sorted_wrt (<) (Object_keys (queue s)) \<Longrightarrow>
      sorted_wrt (<) (Object_keys (queue (fst ((case f of
          CreateMatch rid otherUid \<Rightarrow> createMatch_settled permitted rid otherUid ts
        | _ \<Rightarrow> (\<lambda>sc. sc)) (s, c)))))"
    by (simp add: createMatch_settled_outcome createMatch_after_update_def
        createMatch_catch_def update_batch_createMatch sorted_remove_child
        split: flow.splits)
  then show ?thesis
    using Update_settled assms
      resume_db [where P = "\<lambda>s. sorted_wrt (<) (Object_keys (queue s))"
        and k = "\<lambda>f. case f of
          CreateMatch rid otherUid \<Rightarrow> createMatch_settled permitted rid otherUid ts
        | _ \<Rightarrow> (\<lambda>sc. sc)"]
    by simp
next
  case (Match_value u)
  with assms show ?thesis by (simp add: local_step_def)
next
  case (Next u now)
  then show ?thesis
    using assms sorted_handleNext
      local_step_db [where P = "\<lambda>s. sorted_wrt (<) (Object_keys (queue s))"
        and k = "handleNext now"]
    by simp
next
  case (Timers u now)
  with assms show ?thesis by (simp add: local_step_def)
next
  case (Report u read_ok tx_ok now)
  then show ?thesis
    using assms sorted_handleReport
      local_step_db [where P = "\<lambda>s. sorted_wrt (<) (Object_keys (queue s))"
        and k = "handleReport read_ok tx_ok now"]
    by simp
next
  case (Connection_failed u now)
  then show ?thesis
    using assms sorted_handleConnectionError
      local_step_db [where P = "\<lambda>s. sorted_wrt (<) (Object_keys (queue s))"
        and k = "handleConnectionError now"]
    by simp
next
  case (Call_ended u now)
  then show ?thesis
    using assms sorted_handleCallEnded
      local_step_db [where P = "\<lambda>s. sorted_wrt (<) (Object_keys (queue s))"
        and k = "handleCallEnded now"]
    by simp
qed

lemma run_sorted: "sorted_wrt (<) (Object_keys (queue (db (run es initial_world))))"
proof -
  have "\<And>w. sorted_wrt (<) (Object_keys (queue (db w))) \<Longrightarrow>
      sorted_wrt (<) (Object_keys (queue (db (fold step es w))))"
    by (induction es) (simp_all add: step_sorted)
  then show ?thesis
    by (simp add: run_def initial_world_def empty_store_def Object_keys_def)
qed

section \<open>Facts about the block list\<close>

lemma addToBlockedUsers_list:
  "blockedUsers (addToBlockedUsers t c) =
     (if t \<in> set (blockedUsers c) then blockedUsers c else blockedUsers c @ [t])"
  by (simp add: addToBlockedUsers_def)

lemma handleReport_blocked_mono:
  "set (blockedUsers c) \<subseteq> set (blockedUsers (snd (handleReport read_ok tx_ok now (s, c))))"
  by (auto simp: handleReport_def handleNext_client addToBlockedUsers_list
      split: option.splits)

lemma handleNext_blocked: "blockedUsers (snd (handleNext now (s, c))) = blockedUsers c"
  by (simp add: handleNext_client)

lemma resume_blocked:
  assumes "\<And>f s c. blockedUsers (snd (k f (s, c))) = blockedUsers c"
  shows "blockedUsers (clients (resume u P k w) v) = blockedUsers (clients w v)"
proof (cases "take_flow P (flows (clients w u))")
  case None
  then show ?thesis by (simp add: resume_def)
next
  case (Some a)
  obtain f rest where a: "a = (f, rest)" by (cases a)
  obtain s' c' where k: "k f (db w, (clients w u)\<lparr>flows := rest\<rparr>) = (s', c')"
    by (cases "k f (db w, (clients w u)\<lparr>flows := rest\<rparr>)")
  have "blockedUsers c' = blockedUsers (clients w u)"
    using assms [of f "db w" "(clients w u)\<lparr>flows := rest\<rparr>"] k by simp
  with Some a k show ?thesis by (simp add: resume_def)
qed

lemma local_step_blocked:
  assumes "\<And>s c. set (blockedUsers c) \<subseteq> set (blockedUsers (snd (k (s, c))))"
  shows "set (blockedUsers (clients w v)) \<subseteq> set (blockedUsers (clients (local_step u k w) v))"
proof -
  obtain s' c' where k: "k (db w, clients w u) = (s', c')" by (cases "k (db w, clients w u)")
  have "set (blockedUsers (clients w u)) \<subseteq> set (blockedUsers c')"
    using assms [of "clients w u" "db w"] k by simp
  with k show ?thesis by (auto simp: local_step_def)
qed

lemma fold_joinQueue_blocked: "blockedUsers (fold (\<lambda>_. joinQueue) xs c) = blockedUsers c"
  by (induction xs arbitrary: c) (simp_all add: joinQueue_def)

lemma fire_timers_blocked: "blockedUsers (fire_timers now c) = blockedUsers c"
  by (simp add: fire_timers_def fold_joinQueue_blocked)

lemma step_blocked:
  "set (blockedUsers (clients w v)) \<subseteq> set (blockedUsers (clients (step e w) v))"
proof (cases e)
  case (ShowApp u)
  then show ?thesis by (simp add: local_step_blocked joinQueue_def)
next
  case (Set_resolved u ts)
  then show ?thesis by (simp add: resume_blocked joinQueue_after_set_def)
next
  case (Set_rejected u)
  then show ?thesis by (simp add: resume_blocked)
next
  case (Once_resolved u rid)
  then show ?thesis
    by (simp add: resume_blocked joinQueue_after_once_choice split: option.splits)
next
  case (Once_rejected u)
  then show ?thesis by (simp add: resume_blocked)
next
  case (Transaction_resolved u)
  have "\<And>f s c. blockedUsers (snd ((case f of AttemptMatch otherUid rid \<Rightarrow> attemptMatch_after_transaction otherUid rid
                     | _ \<Rightarrow> (\<lambda>sc. sc)) (s, c))) = blockedUsers c"
    by (simp add: attemptMatch_after_transaction_def createMatch_def joinQueue_def
        split: flow.splits prod.splits)
  with Transaction_resolved show ?thesis by (simp add: resume_blocked)
next
  case (Transaction_rejected u)
  then show ?thesis by (simp add: resume_blocked attemptMatch_catch_def joinQueue_def)
next
  case (Update_resolved u ts)
  have "\<And>f s c. blockedUsers (snd ((case f of CreateMatch rid otherUid \<Rightarrow> createMatch_after_update rid otherUid ts
                     | _ \<Rightarrow> (\<lambda>sc. sc)) (s, c))) = blockedUsers c"
    by (simp add: createMatch_after_update_def startCall_def split: flow.splits)
  with Update_resolved show ?thesis by (simp add: resume_blocked)
next
  case (Update_rejected u)
  then show ?thesis by (simp add: resume_blocked createMatch_catch_def joinQueue_def)
next
  case (Update_settled u ts permitted)
  have "\<And>f s c. blockedUsers (snd ((case f of
          CreateMatch rid otherUid \<Rightarrow> createMatch_settled permitted rid otherUid ts
        | _ \<Rightarrow> (\<lambda>sc. sc)) (s, c))) = blockedUsers c"
    by (simp add: createMatch_settled_outcome createMatch_after_update_def
        createMatch_catch_def startCall_def joinQueue_def split: flow.splits)
  with Update_settled show ?thesis by (simp add: resume_blocked)
next
  case (Match_value u)
  then show ?thesis
    by (simp add: local_step_blocked handleMatchFound_def answerCall_def split: option.splits)
next
  case (Next u now)
  then show ?thesis by (simp add: local_step_blocked handleNext_blocked)
next
  case (Timers u now)
  then show ?thesis by (simp add: local_step_blocked fire_timers_blocked)
next
  case (Report u read_ok tx_ok now)
  then show ?thesis by (simp add: local_step_blocked handleReport_blocked_mono)
next
  case (Connection_failed u now)
  then show ?thesis
    by (simp add: local_step_blocked handleConnectionError_def cleanup_def setTimeout_def
        Let_def)
next
  case (Call_ended u now)
  then show ?thesis
    by (simp add: local_step_blocked handleCallEnded_def cleanup_def setTimeout_def Let_def)
qed

lemma run_blocked:
  "set (blockedUsers (clients w v)) \<subseteq> set (blockedUsers (clients (run es w) v))"
  unfolding run_def
proof (induction es arbitrary: w)
  case Nil
  then show ?case by simp
next
  case (Cons e es)
  have "set (blockedUsers (clients w v)) \<subseteq> set (blockedUsers (clients (step e w) v))"
    by (rule step_blocked)
  also have "\<dots> \<subseteq> set (blockedUsers (clients (fold step es (step e w)) v))"
    by (rule Cons.IH)
  finally show ?case by simp
qed

lemma findPartner_not_blocked: "t \<in> set blocked \<Longrightarrow> findPartner ks self blocked \<noteq> Some t"
proof
  assume b: "t \<in> set blocked" and f: "findPartner ks self blocked = Some t"
  from f have "t \<in> set (otherUsers ks self blocked)"
    by (auto simp: findPartner_def split: list.splits)
  with b show False by (simp add: otherUsers_def)
qed

lemma handleReport_reports:
  assumes "currentRoom c = Some rid" "rooms s rid = Some r"
    "List.find (\<lambda>p. p \<noteq> uid c) (participants r) = Some t" "t \<noteq> []"
  shows "handleReport True True now (s, c) =
           handleNext now (transaction_reports t s, addToBlockedUsers t c)"
  using assms by (simp add: handleReport_def getCurrentRoomParticipants_def)

lemma handleReport_nothing:
  "List.find (\<lambda>p. p \<noteq> uid c) (getCurrentRoomParticipants read_ok s c) = None
     \<Longrightarrow> handleReport read_ok tx_ok now (s, c) = (s, c)"
  by (simp add: handleReport_def split: option.splits)

lemma getCurrentRoomParticipants_unread: "getCurrentRoomParticipants False s c = []"
  by (simp add: getCurrentRoomParticipants_def split: option.splits)

section \<open>Facts about the candidate choice\<close>

lemma otherUsers_split:
  "otherUsers ks self blocked = x # rest \<Longrightarrow>
     \<exists>pre post. ks = pre @ x # post \<and> otherUsers pre self blocked = []"
proof (induction ks)
  case Nil
  then show ?case by (simp add: otherUsers_def)
next
  case (Cons k ks)
  show ?case
  proof (cases "k \<noteq> self \<and> k \<notin> set blocked")
    case True
    with Cons.prems have "x = k" by (simp add: otherUsers_def)
    then have "k # ks = [] @ x # ks \<and> otherUsers [] self blocked = []"
      by (simp add: otherUsers_def)
    then show ?thesis by blast
  next
    case False
    with Cons.prems have "otherUsers ks self blocked = x # rest"
      by (auto simp: otherUsers_def)
    then obtain pre post where "ks = pre @ x # post" "otherUsers pre self blocked = []"
      using Cons.IH by blast
    with False have "k # ks = (k # pre) @ x # post \<and> otherUsers (k # pre) self blocked = []"
      by (auto simp: otherUsers_def)
    then show ?thesis by blast
  qed
qed

lemma otherUsers_empty:
  "otherUsers ks self blocked = [] \<longleftrightarrow> (\<forall>u\<in>set ks. u = self \<or> u \<in> set blocked)"
  by (auto simp: otherUsers_def filter_empty_conv)

lemma world_reserved_pending:
  "take_flow is_CreateMatch (flows (clients world_reserved ''user_c''))
     = Some (CreateMatch ''room_c'' ''user_b'', [])"
  by code_simp

lemma world_reserved_uid: "uid (clients world_reserved ''user_c'') = ''user_c''"
  by code_simp

lemma world_lost_pending:
  "take_flow is_AttemptMatch (flows (clients world_lost ''user_a''))
     = Some (AttemptMatch ''user_b'' ''room_a'', [])"
  by code_simp

lemma world_lost_reserved: "reservation (queue (db world_lost)) ''user_b'' = Some ''user_c''"
  by code_simp

lemma world_aborted_pending:
  "take_flow (\<lambda>f. f = JoinQueue_set) (flows (clients world_aborted ''user_a''))
     = Some (JoinQueue_set, [])"
  by code_simp

lemma world_rejoined_pending:
  "take_flow (\<lambda>f. f = JoinQueue_once) (flows (clients world_rejoined ''user_a''))
     = Some (JoinQueue_once, [])"
  by code_simp

lemma world_rejoined_choice:
  "findPartner (Object_keys (queue (db world_rejoined))) (uid (clients world_rejoined ''user_a''))
     (blockedUsers (clients world_rejoined ''user_a'')) = Some ''user_b''"
  by code_simp

lemma world_matched_room:
  "currentRoom (clients world_matched ''user_c'') = Some ''room_c''
   \<and> rooms (db world_matched) ''room_c'' =
       Some \<lparr>createdBy = ''user_c'', createdAt = 3, participants = [''user_c'', ''user_b''],
             offer = None, answer = None, callerCandidates = [], calleeCandidates = []\<rparr>
   \<and> uid (clients world_matched ''user_c'') = ''user_c''
   \<and> blockedUsers (clients world_matched ''user_c'') = []
   \<and> reports (db world_matched) ''user_b'' = None"
  by code_simp

section \<open>Facts about skips and pending timers\<close>

text \<open>
  What a skip at time \<open>t\<close> leaves of the pending timers: those not yet due, without the
  one \<open>matchTimeout\<close> holds, and the new one. What a burst of skips leaves, for any
  client whose pending timers have ids below the next id.
\<close>

lemma fold_joinQueue:
  "fold (\<lambda>_. joinQueue) xs c = c\<lparr>flows := flows c @ replicate (length xs) JoinQueue_set\<rparr>"
  by (induction xs arbitrary: c) (simp_all add: joinQueue_def replicate_app_Cons_same)

lemma fire_timers_fields:
  "timers (fire_timers now c) = filter (\<lambda>p. now < snd p) (timers c)"
  "flows (fire_timers now c) =
     flows c @ replicate (length (filter (\<lambda>p. snd p \<le> now) (timers c))) JoinQueue_set"
  "matchTimeout (fire_timers now c) = matchTimeout c"
  "nextTimer (fire_timers now c) = nextTimer c"
  by (simp_all add: fire_timers_def fold_joinQueue not_le)

lemma skip_at_fields:
  "timers (snd (skip_at t (s, c))) =
     filter (\<lambda>p. t < snd p \<and> Some (fst p) \<noteq> matchTimeout c) (timers c) @ [(nextTimer c, t + 500)]"
  "flows (snd (skip_at t (s, c))) =
     flows c @ replicate (length (filter (\<lambda>p. snd p \<le> t) (timers c))) JoinQueue_set"
  "matchTimeout (snd (skip_at t (s, c))) = Some (nextTimer c)"
  "nextTimer (snd (skip_at t (s, c))) = Suc (nextTimer c)"
  by (auto simp: skip_at_def handleNext_client fire_timers_fields split: option.splits
      intro: filter_cong)

lemma rapid_le_last: "rapid (t # ts) \<Longrightarrow> t \<le> last (t # ts)"
proof (induction ts arbitrary: t)
  case Nil
  then show ?case by simp
next
  case (Cons t' ts)
  then have "t \<le> t'" and "rapid (t' # ts)" by simp_all
  with Cons.IH [of t'] show ?case by simp
qed

lemma filter_due_split:
  "t \<le> (l::nat) \<Longrightarrow>
     length (filter (\<lambda>p. snd p \<le> t) old)
       + length (filter (\<lambda>p. snd p \<le> l) (filter (\<lambda>p. t < snd p) old))
     = length (filter (\<lambda>p. snd p \<le> l) old)"
  by (induction old) auto

lemma skips_armed:
  "timers c = old @ [(j, t + 500)] \<Longrightarrow> matchTimeout c = Some j \<Longrightarrow>
   \<forall>p\<in>set old. fst p \<noteq> j \<and> fst p < nextTimer c \<and> t < snd p \<Longrightarrow>
   rapid (t # ts) \<Longrightarrow> n \<le> j \<Longrightarrow> j < nextTimer c \<Longrightarrow>
     (\<exists>j'. timers (snd (fold skip_at ts (s, c)))
            = filter (\<lambda>p. last (t # ts) < snd p) old @ [(j', last (t # ts) + 500)]
         \<and> matchTimeout (snd (fold skip_at ts (s, c))) = Some j'
         \<and> n \<le> j')
     \<and> flows (snd (fold skip_at ts (s, c)))
         = flows c @ replicate (length (filter (\<lambda>p. snd p \<le> last (t # ts)) old)) JoinQueue_set"
proof (induction ts arbitrary: s c old j t)
  case Nil
  then have "filter (\<lambda>p. t < snd p) old = old" "filter (\<lambda>p. snd p \<le> t) old = []"
    by (auto simp: filter_id_conv filter_empty_conv)
  with Nil show ?case by auto
next
  case (Cons t' ts)
  obtain s' c' where sc: "skip_at t' (s, c) = (s', c')" by (cases "skip_at t' (s, c)")
  from Cons.prems have le: "t \<le> t'" and close: "t' < t + 500" and rest: "rapid (t' # ts)"
    by simp_all
  let ?old' = "filter (\<lambda>p. t' < snd p) old"
  have keep: "filter (\<lambda>p. t' < snd p \<and> Some (fst p) \<noteq> Some j) old = ?old'"
    using Cons.prems(3) by (auto intro: filter_cong)
  have tm: "timers c' = ?old' @ [(nextTimer c, t' + 500)]"
    using skip_at_fields(1) [of t' s c] sc Cons.prems(1,2) close keep by simp
  have mt: "matchTimeout c' = Some (nextTimer c)"
    using skip_at_fields(3) [of t' s c] sc by simp
  have nt: "nextTimer c' = Suc (nextTimer c)"
    using skip_at_fields(4) [of t' s c] sc by simp
  have fl: "flows c' = flows c @ replicate (length (filter (\<lambda>p. snd p \<le> t') old)) JoinQueue_set"
    using skip_at_fields(2) [of t' s c] sc Cons.prems(1) close by simp
  have inv: "\<forall>p\<in>set ?old'. fst p \<noteq> nextTimer c \<and> fst p < nextTimer c' \<and> t' < snd p"
    using Cons.prems(3) nt by auto
  have up: "n \<le> nextTimer c" "nextTimer c < nextTimer c'"
    using Cons.prems(5,6) nt by simp_all
  from Cons.IH [OF tm mt inv rest up, of s']
  obtain j' where fin:
    "timers (snd (fold skip_at ts (s', c')))
       = filter (\<lambda>p. last (t' # ts) < snd p) ?old' @ [(j', last (t' # ts) + 500)]"
    "matchTimeout (snd (fold skip_at ts (s', c'))) = Some j'"
    "n \<le> j'"
    "flows (snd (fold skip_at ts (s', c')))
       = flows c' @ replicate (length (filter (\<lambda>p. snd p \<le> last (t' # ts)) ?old')) JoinQueue_set"
    by blast
  have l: "t' \<le> last (t' # ts)" using rest by (rule rapid_le_last)
  have f1: "filter (\<lambda>p. last (t' # ts) < snd p) ?old' = filter (\<lambda>p. last (t' # ts) < snd p) old"
    using l by (auto intro: filter_cong)
  have f2: "length (filter (\<lambda>p. snd p \<le> t') old)
       + length (filter (\<lambda>p. snd p \<le> last (t' # ts)) ?old')
     = length (filter (\<lambda>p. snd p \<le> last (t' # ts)) old)"
    using l by (rule filter_due_split)
  have "flows (snd (fold skip_at ts (s', c')))
      = flows c @ replicate (length (filter (\<lambda>p. snd p \<le> last (t' # ts)) old)) JoinQueue_set"
    unfolding fin(4) fl using f2 by (simp add: replicate_add [symmetric])
  with fin f1 nt sc show ?case by auto
qed

lemma skips_leave_one_skip_timer:
  assumes "ts \<noteq> []" and "rapid ts" and ids: "\<forall>p\<in>set (timers c). fst p < nextTimer c"
  shows "(\<exists>j. timers (snd (fold skip_at ts (s, c)))
            = filter (\<lambda>p. last ts < snd p \<and> Some (fst p) \<noteq> matchTimeout c) (timers c)
                @ [(j, last ts + 500)]
          \<and> matchTimeout (snd (fold skip_at ts (s, c))) = Some j
          \<and> j \<notin> fst ` set (timers c))
    \<and> flows (snd (fold skip_at ts (s, c)))
        = flows c @ replicate
            (length (filter (\<lambda>p. snd p \<le> hd ts) (timers c))
             + length (filter (\<lambda>p. snd p \<le> last ts)
                 (filter (\<lambda>p. hd ts < snd p \<and> Some (fst p) \<noteq> matchTimeout c) (timers c))))
            JoinQueue_set
    \<and> length (filter (\<lambda>p. snd p \<le> now) (timers (snd (fold skip_at ts (s, c)))))
        = length (filter (\<lambda>p. snd p \<le> now)
            (filter (\<lambda>p. last ts < snd p \<and> Some (fst p) \<noteq> matchTimeout c) (timers c)))
          + (if last ts + 500 \<le> now then 1 else 0)"
proof -
  obtain t rest where ts: "ts = t # rest" using assms(1) by (cases ts) auto
  obtain s1 c1 where sc: "skip_at t (s, c) = (s1, c1)" by (cases "skip_at t (s, c)")
  let ?old = "filter (\<lambda>p. t < snd p \<and> Some (fst p) \<noteq> matchTimeout c) (timers c)"
  have tm: "timers c1 = ?old @ [(nextTimer c, t + 500)]"
    using skip_at_fields(1) [of t s c] sc by simp
  have mt: "matchTimeout c1 = Some (nextTimer c)"
    using skip_at_fields(3) [of t s c] sc by simp
  have nt: "nextTimer c1 = Suc (nextTimer c)"
    using skip_at_fields(4) [of t s c] sc by simp
  have fl: "flows c1 = flows c @ replicate (length (filter (\<lambda>p. snd p \<le> t) (timers c))) JoinQueue_set"
    using skip_at_fields(2) [of t s c] sc by simp
  have inv: "\<forall>p\<in>set ?old. fst p \<noteq> nextTimer c \<and> fst p < nextTimer c1 \<and> t < snd p"
    using ids nt by auto
  have r: "rapid (t # rest)" using assms(2) ts by simp
  have up: "nextTimer c \<le> nextTimer c" "nextTimer c < nextTimer c1" using nt by simp_all
  from skips_armed [OF tm mt inv r up, of s1]
  obtain j where fin:
    "timers (snd (fold skip_at rest (s1, c1)))
       = filter (\<lambda>p. last (t # rest) < snd p) ?old @ [(j, last (t # rest) + 500)]"
    "matchTimeout (snd (fold skip_at rest (s1, c1))) = Some j"
    "nextTimer c \<le> j"
    "flows (snd (fold skip_at rest (s1, c1)))
       = flows c1 @ replicate (length (filter (\<lambda>p. snd p \<le> last (t # rest)) ?old)) JoinQueue_set"
    by blast
  have l: "t \<le> last (t # rest)" using r by (rule rapid_le_last)
  have f1: "filter (\<lambda>p. last (t # rest) < snd p) ?old
      = filter (\<lambda>p. last (t # rest) < snd p \<and> Some (fst p) \<noteq> matchTimeout c) (timers c)"
    using l by (auto intro: filter_cong)
  have run: "fold skip_at ts (s, c) = fold skip_at rest (s1, c1)" using ts sc by simp
  have fresh: "j \<notin> fst ` set (timers c)" using ids fin(3) by auto
  have a: "timers (snd (fold skip_at ts (s, c)))
      = filter (\<lambda>p. last ts < snd p \<and> Some (fst p) \<noteq> matchTimeout c) (timers c)
          @ [(j, last ts + 500)]"
    unfolding run fin(1) f1 using ts by simp
  have b: "flows (snd (fold skip_at ts (s, c)))
        = flows c @ replicate
            (length (filter (\<lambda>p. snd p \<le> hd ts) (timers c))
             + length (filter (\<lambda>p. snd p \<le> last ts)
                 (filter (\<lambda>p. hd ts < snd p \<and> Some (fst p) \<noteq> matchTimeout c) (timers c))))
            JoinQueue_set"
    unfolding run fin(4) fl using ts by (simp add: replicate_add)
  have c: "length (filter (\<lambda>p. snd p \<le> now) (timers (snd (fold skip_at ts (s, c)))))
        = length (filter (\<lambda>p. snd p \<le> now)
            (filter (\<lambda>p. last ts < snd p \<and> Some (fst p) \<noteq> matchTimeout c) (timers c)))
          + (if last ts + 500 \<le> now then 1 else 0)"
    unfolding a by simp
  from a b c fin(2) fresh run show ?thesis by auto
qed

text \<open>
  Timer ids are handed out in increasing order, so in every state that a run from the initial
  world reaches the pending timers of a client have ids below the next one.
\<close>

lemma resume_client:
  assumes "\<And>f s c. P c \<Longrightarrow> P (snd (k f (s, c)))"
    and "\<And>c fs. P c \<Longrightarrow> P (c\<lparr>flows := fs\<rparr>)"
    and "P (clients w v)"
  shows "P (clients (resume u Q k w) v)"
proof (cases "take_flow Q (flows (clients w u))")
  case None
  with assms(3) show ?thesis by (simp add: resume_def)
next
  case (Some a)
  obtain f rest where a: "a = (f, rest)" by (cases a)
  obtain s' c' where k: "k f (db w, (clients w u)\<lparr>flows := rest\<rparr>) = (s', c')"
    by (cases "k f (db w, (clients w u)\<lparr>flows := rest\<rparr>)")
  show ?thesis
  proof (cases "v = u")
    case True
    with assms(3) have "P ((clients w u)\<lparr>flows := rest\<rparr>)" by (simp add: assms(2))
    then have "P c'" using assms(1) [of "(clients w u)\<lparr>flows := rest\<rparr>" f "db w"] k by simp
    with True Some a k show ?thesis by (simp add: resume_def)
  next
    case False
    with Some a k assms(3) show ?thesis by (simp add: resume_def)
  qed
qed

lemma local_step_client:
  assumes "\<And>s c. P c \<Longrightarrow> P (snd (k (s, c)))" and "P (clients w v)"
  shows "P (clients (local_step u k w) v)"
proof -
  obtain s' c' where k: "k (db w, clients w u) = (s', c')" by (cases "k (db w, clients w u)")
  show ?thesis
  proof (cases "v = u")
    case True
    with assms(2) have "P c'" using assms(1) [of "clients w u" "db w"] k by simp
    with True k show ?thesis by (simp add: local_step_def)
  next
    case False
    with k assms(2) show ?thesis by (simp add: local_step_def)
  qed
qed

lemma timer_ids_handleNext:
  "\<forall>p\<in>set (timers c). fst p < nextTimer c \<Longrightarrow>
     \<forall>p\<in>set (timers (snd (handleNext now (s, c)))). fst p < nextTimer (snd (handleNext now (s, c)))"
  by (auto simp: handleNext_client split: option.splits)

lemma timer_ids_fire_timers:
  "\<forall>p\<in>set (timers c). fst p < nextTimer c \<Longrightarrow>
     \<forall>p\<in>set (timers (fire_timers now c)). fst p < nextTimer (fire_timers now c)"
  by (auto simp: fire_timers_fields)

lemma timer_ids_handleConnectionError:
  "\<forall>p\<in>set (timers c). fst p < nextTimer c \<Longrightarrow>
     \<forall>p\<in>set (timers (snd (handleConnectionError now (s, c)))).
        fst p < nextTimer (snd (handleConnectionError now (s, c)))"
  by (auto simp: handleConnectionError_def cleanup_def setTimeout_def Let_def)

lemma timer_ids_handleCallEnded:
  "\<forall>p\<in>set (timers c). fst p < nextTimer c \<Longrightarrow>
     \<forall>p\<in>set (timers (snd (handleCallEnded now (s, c)))).
        fst p < nextTimer (snd (handleCallEnded now (s, c)))"
  by (auto simp: handleCallEnded_def cleanup_def setTimeout_def Let_def)

lemma timer_ids_handleReport:
  "\<forall>p\<in>set (timers c). fst p < nextTimer c \<Longrightarrow>
     \<forall>p\<in>set (timers (snd (handleReport read_ok tx_ok now (s, c)))).
        fst p < nextTimer (snd (handleReport read_ok tx_ok now (s, c)))"
proof -
  assume a: "\<forall>p\<in>set (timers c). fst p < nextTimer c"
  have b: "\<And>t. \<forall>p\<in>set (timers (addToBlockedUsers t c)). fst p < nextTimer (addToBlockedUsers t c)"
    using a by (simp add: addToBlockedUsers_def)
  show ?thesis
    using a timer_ids_handleNext [OF b]
    by (simp add: handleReport_def split: option.splits)
qed

lemma step_timer_ids:
  assumes "\<forall>p\<in>set (timers (clients w v)). fst p < nextTimer (clients w v)"
  shows "\<forall>p\<in>set (timers (clients (step e w) v)). fst p < nextTimer (clients (step e w) v)"
proof -
  let ?P = "\<lambda>c. \<forall>p\<in>set (timers c). fst p < nextTimer c"
  have fl: "\<And>c fs. ?P c \<Longrightarrow> ?P (c\<lparr>flows := fs\<rparr>)" by simp
  show ?thesis
  proof (cases e)
    case (ShowApp u)
    then show ?thesis
      using assms local_step_client [where P = ?P and k = "\<lambda>sc. (fst sc, joinQueue (snd sc))"]
      by (simp add: joinQueue_def)
  next
    case (Set_resolved u ts)
    then show ?thesis
      using assms resume_client [where P = ?P and k = "\<lambda>_. joinQueue_after_set ts", OF _ fl]
      by (simp add: joinQueue_after_set_def)
  next
    case (Set_rejected u)
    then show ?thesis
      using assms resume_client [where P = ?P and k = "\<lambda>_ sc. sc", OF _ fl] by simp
  next
    case (Once_resolved u rid)
    then show ?thesis
      using assms resume_client [where P = ?P and k = "\<lambda>_. joinQueue_after_once rid", OF _ fl]
      by (simp add: joinQueue_after_once_choice split: option.splits)
  next
    case (Once_rejected u)
    then show ?thesis
      using assms resume_client [where P = ?P and k = "\<lambda>_ sc. sc", OF _ fl] by simp
  next
    case (Transaction_resolved u)
    have "\<And>f s c. ?P c \<Longrightarrow> ?P (snd ((case f of
          AttemptMatch otherUid rid \<Rightarrow> attemptMatch_after_transaction otherUid rid
        | _ \<Rightarrow> (\<lambda>sc. sc)) (s, c)))"
      by (simp add: attemptMatch_after_transaction_def createMatch_def joinQueue_def
          split: flow.splits prod.splits)
    then show ?thesis
      using Transaction_resolved assms
        resume_client [where P = ?P and k = "\<lambda>f. case f of
          AttemptMatch otherUid rid \<Rightarrow> attemptMatch_after_transaction otherUid rid
        | _ \<Rightarrow> (\<lambda>sc. sc)", OF _ fl]
      by simp
  next
    case (Transaction_rejected u)
    then show ?thesis
      using assms resume_client [where P = ?P and k = "\<lambda>_. attemptMatch_catch", OF _ fl]
      by (simp add: attemptMatch_catch_def joinQueue_def)
  next
    case (Update_resolved u ts)
    have "\<And>f s c. ?P c \<Longrightarrow> ?P (snd ((case f of
          CreateMatch rid otherUid \<Rightarrow> createMatch_after_update rid otherUid ts
        | _ \<Rightarrow> (\<lambda>sc. sc)) (s, c)))"
      by (simp add: createMatch_after_update_def startCall_def split: flow.splits)
    then show ?thesis
      using Update_resolved assms
        resume_client [where P = ?P and k = "\<lambda>f. case f of
          CreateMatch rid otherUid \<Rightarrow> createMatch_after_update rid otherUid ts
        | _ \<Rightarrow> (\<lambda>sc. sc)", OF _ fl]
      by simp
  next
    case (Update_rejected u)
    then show ?thesis
      using assms resume_client [where P = ?P and k = "\<lambda>_. createMatch_catch", OF _ fl]
      by (simp add: createMatch_catch_def joinQueue_def)
  next
    case (Update_settled u ts permitted)
    have "\<And>f s c. ?P c \<Longrightarrow> ?P (snd ((case f of
          CreateMatch rid otherUid \<Rightarrow> createMatch_settled permitted rid otherUid ts
        | _ \<Rightarrow> (\<lambda>sc. sc)) (s, c)))"
      by (simp add: createMatch_settled_outcome createMatch_after_update_def
          createMatch_catch_def startCall_def joinQueue_def split: flow.splits)
    then show ?thesis
      using Update_settled assms
        resume_client [where P = ?P and k = "\<lambda>f. case f of
          CreateMatch rid otherUid \<Rightarrow> createMatch_settled permitted rid otherUid ts
        | _ \<Rightarrow> (\<lambda>sc. sc)", OF _ fl]
      by simp
  next
    case (Match_value u)
    then show ?thesis
      using assms local_step_client [where P = ?P and k = "\<lambda>sc. (fst sc, if matchListener (snd sc)
                       then handleMatchFound (matches (fst sc) (uid (snd sc))) (snd sc)
                       else snd sc)"]
      by (simp add: handleMatchFound_def answerCall_def split: option.splits)
  next
    case (Next u now)
    then show ?thesis
      using assms timer_ids_handleNext
        local_step_client [where P = ?P and k = "handleNext now"]
      by simp
  next
    case (Timers u now)
    then show ?thesis
      using assms timer_ids_fire_timers
        local_step_client [where P = ?P and k = "\<lambda>sc. (fst sc, fire_timers now (snd sc))"]
      by simp
  next
    case (Report u read_ok tx_ok now)
    then show ?thesis
      using assms timer_ids_handleReport
        local_step_client [where P = ?P and k = "handleReport read_ok tx_ok now"]
      by simp
  next
    case (Connection_failed u now)
    then show ?thesis
      using assms timer_ids_handleConnectionError
        local_step_client [where P = ?P and k = "handleConnectionError now"]
      by simp
  next
    case (Call_ended u now)
    then show ?thesis
      using assms timer_ids_handleCallEnded
        local_step_client [where P = ?P and k = "handleCallEnded now"]
      by simp
  qed
qed

lemma run_timer_ids:
  "\<forall>p\<in>set (timers (clients (run es initial_world) v)).
     fst p < nextTimer (clients (run es initial_world) v)"
proof -
  have "\<And>w. \<forall>p\<in>set (timers (clients w v)). fst p < nextTimer (clients w v) \<Longrightarrow>
      \<forall>p\<in>set (timers (clients (fold step es w) v)). fst p < nextTimer (clients (fold step es w) v)"
    by (induction es) (simp_all add: step_timer_ids)
  then show ?thesis
    by (simp add: run_def initial_world_def new_client_def)
qed

section \<open>The claims\<close>

subsection \<open>C1: reservations of one candidate\<close>

text \<open>
  C1. Two attempts on one candidate that are under way together and both commit. In
  \<open>world_contended\<close> the transactions of \<open>user_c\<close> and of \<open>user_b\<close> on
  \<open>queue/user_a/reservedBy\<close> have both been issued. The one of \<open>user_c\<close> arrives
  first, finds the field empty and commits, and \<open>user_c\<close> goes on to \<open>createMatch\<close>,
  whose batch removes \<open>queue/user_a\<close>. The one of \<open>user_b\<close> arrives then, finds
  the field empty again (the node is gone) and commits as well, and \<open>user_b\<close> goes on to
  \<open>createMatch\<close> too: neither attempt has been refused.
\<close>

theorem contended_candidate_reserved_twice:
  "take_flow is_AttemptMatch (flows (clients world_contended ''user_c''))
     = Some (AttemptMatch ''user_a'' ''room_c'', [])
   \<and> take_flow is_AttemptMatch (flows (clients world_contended ''user_b''))
     = Some (AttemptMatch ''user_a'' ''room_b'', [])
   \<and> fst (transaction_reservedBy ''user_a'' ''user_c'' (queue (db world_contended))) = True
   \<and> flows (clients (step (Transaction_resolved ''user_c'') world_contended) ''user_c'')
     = [CreateMatch ''room_c'' ''user_a'']
   \<and> fst (transaction_reservedBy ''user_a'' ''user_b'' (queue (db world_contended_matched))) = True
   \<and> flows (clients (step (Transaction_resolved ''user_b'') world_contended_matched) ''user_b'')
     = [CreateMatch ''room_b'' ''user_a'']"
  by code_simp

subsection \<open>C2: the batch of \<open>createMatch\<close>\<close>

text \<open>
  C2. When the update of a pending \<open>createMatch(rid, otherUid)\<close> of client \<open>u\<close> is
  applied, that one step of the database writes the whole batch: afterwards both Match rows
  hold \<open>rid\<close>, the room \<open>rid\<close> exists with \<open>createdBy\<close> the caller and both as
  participants, neither of the two has a queue entry, and the caller's \<open>currentRoom\<close> is
  \<open>rid\<close>. \<open>rid\<close> is the id \<open>generateRoomId\<close> returned; the statement holds for
  every id.
\<close>

theorem createMatch_atomic_batch:
  assumes pending:
      "take_flow is_CreateMatch (flows (clients w u)) = Some (CreateMatch rid otherUid, rest)"
    and own: "uid (clients w u) = self"
  shows "db (step (Update_resolved u ts) w) = update_batch (createMatch_batch self rid otherUid ts) (db w)
    \<and> matches (db (step (Update_resolved u ts) w)) self = Some rid
    \<and> matches (db (step (Update_resolved u ts) w)) otherUid = Some rid
    \<and> rooms (db (step (Update_resolved u ts) w)) rid =
          Some \<lparr>createdBy = self, createdAt = ts, participants = [self, otherUid],
                offer = None, answer = None, callerCandidates = [], calleeCandidates = []\<rparr>
    \<and> \<not> in_queue (db (step (Update_resolved u ts) w)) self
    \<and> \<not> in_queue (db (step (Update_resolved u ts) w)) otherUid
    \<and> currentRoom (clients (step (Update_resolved u ts) w) u) = Some rid"
proof -
  have st: "step (Update_resolved u ts) w =
      w\<lparr>db := update_batch (createMatch_batch self rid otherUid ts) (db w),
        clients := (clients w)
          (u := startCall rid ((clients w u)\<lparr>flows := rest, currentRoom := Some rid\<rparr>))\<rparr>"
    using own by (simp add: take_flow_step [OF pending] createMatch_after_update_def)
  show ?thesis
    unfolding st
    by (simp add: update_batch_createMatch in_queue_def map_of_remove_child startCall_def)
qed

theorem createMatch_atomic_batch_witness:
  "take_flow is_CreateMatch (flows (clients world_reserved ''user_c''))
     = Some (CreateMatch ''room_c'' ''user_b'', [])
   \<and> uid (clients world_reserved ''user_c'') = ''user_c''
   \<and> matches (db (step (Update_resolved ''user_c'' 3) world_reserved)) ''user_c'' = Some ''room_c''
   \<and> matches (db (step (Update_resolved ''user_c'' 3) world_reserved)) ''user_b'' = Some ''room_c''
   \<and> \<not> in_queue (db (step (Update_resolved ''user_c'' 3) world_reserved)) ''user_c''
   \<and> \<not> in_queue (db (step (Update_resolved ''user_c'' 3) world_reserved)) ''user_b''"
  using createMatch_atomic_batch [OF world_reserved_pending world_reserved_uid, of 3]
    world_reserved_pending world_reserved_uid
  by blast

subsection \<open>C3: queue entries and Match rows\<close>

text \<open>
  C3. The claim is that in no reachable state a client has a queue entry and a Match row.
  The run \<open>racing_run\<close> of four clients from the empty database ends in a state where
  \<open>user_a\<close> has both: \<open>user_d\<close> matched \<open>user_a\<close> while \<open>user_a\<close> was waiting for
  its transaction on \<open>user_b\<close>, and when that transaction was aborted \<open>user_a\<close> wrote
  its queue entry again.
\<close>

theorem racing_run_breaks_exclusion:
  "in_queue (db (run racing_run initial_world)) ''user_a''
   \<and> matches (db (run racing_run initial_world)) ''user_a'' = Some ''room_d''"
  by code_simp

text \<open>
  When the run goes on and \<open>user_e\<close> matches \<open>user_a\<close> from that queue entry,
  \<open>user_a\<close> is a participant of two rooms that Match rows point to: \<open>room_d\<close>, which is
  still the room of \<open>user_d\<close>, and \<open>room_e\<close>.
\<close>

lemma racing_run_two_rooms:
  "matches (db (run racing_run_rematched initial_world)) ''user_d'' = Some ''room_d''
   \<and> map_option participants (rooms (db (run racing_run_rematched initial_world)) ''room_d'')
       = Some [''user_d'', ''user_a'']
   \<and> matches (db (run racing_run_rematched initial_world)) ''user_a'' = Some ''room_e''
   \<and> map_option participants (rooms (db (run racing_run_rematched initial_world)) ''room_e'')
       = Some [''user_e'', ''user_a'']"
  by code_simp

text \<open>
  In \<open>overlapping_run\<close> the queue entry of \<open>user_a\<close> is gone when the transaction of
  \<open>user_b\<close> arrives, so the transaction finds \<open>null\<close>, is committed and writes
  \<open>queue/user_a/reservedBy\<close>: \<open>user_a\<close>, matched with \<open>user_c\<close>, is listed in
  the queue again. After the batch of \<open>user_b\<close>, the Match row of \<open>user_c\<close> still
  points to \<open>room_c\<close> with \<open>user_a\<close> in it, while \<open>user_a\<close> and \<open>user_b\<close>
  are in \<open>room_b\<close>; \<open>user_b\<close> and \<open>user_c\<close> both call \<open>user_a\<close>.
\<close>

lemma overlapping_run_two_rooms:
  "in_queue (db (run overlapping_run initial_world)) ''user_a''
   \<and> matches (db (run overlapping_run initial_world)) ''user_a'' = Some ''room_c''
   \<and> matches (db (run (overlapping_run @ [Update_resolved ''user_b'' 5]) initial_world)) ''user_c''
       = Some ''room_c''
   \<and> map_option participants
         (rooms (db (run (overlapping_run @ [Update_resolved ''user_b'' 5]) initial_world)) ''room_c'')
       = Some [''user_c'', ''user_a'']
   \<and> matches (db (run (overlapping_run @ [Update_resolved ''user_b'' 5]) initial_world)) ''user_a''
       = Some ''room_b''
   \<and> map_option participants
         (rooms (db (run (overlapping_run @ [Update_resolved ''user_b'' 5]) initial_world)) ''room_b'')
       = Some [''user_b'', ''user_a'']
   \<and> currentRoom (clients (run (overlapping_run @ [Update_resolved ''user_b'' 5]) initial_world) ''user_c'')
       = Some ''room_c''
   \<and> currentRoom (clients (run (overlapping_run @ [Update_resolved ''user_b'' 5]) initial_world) ''user_b'')
       = Some ''room_b''"
  by code_simp

subsection \<open>C4: the candidate choice\<close>

text \<open>
  C4. For every snapshot key list, own id and block list, the choice returns the first key
  that is neither the own id nor blocked, and none exactly when every key is the own id or
  blocked; the own id and blocked ids are never returned.
\<close>

theorem findPartner_first_not_excluded:
  "(case findPartner ks self blocked of
      None \<Rightarrow> (\<forall>u\<in>set ks. u = self \<or> u \<in> set blocked)
    | Some x \<Rightarrow> x \<noteq> self \<and> x \<notin> set blocked \<and>
        (\<exists>pre post. ks = pre @ x # post \<and> (\<forall>u\<in>set pre. u = self \<or> u \<in> set blocked)))"
proof (cases "otherUsers ks self blocked")
  case Nil
  then show ?thesis
    using otherUsers_empty [of ks self blocked] by (simp add: findPartner_def)
next
  case (Cons x rest)
  then have "x \<in> set (otherUsers ks self blocked)" by simp
  then have ok: "x \<noteq> self \<and> x \<notin> set blocked"
    by (simp add: otherUsers_def)
  obtain pre post where "ks = pre @ x # post" "otherUsers pre self blocked = []"
    using otherUsers_split [OF Cons] by blast
  then have "\<exists>pre post. ks = pre @ x # post \<and> (\<forall>u\<in>set pre. u = self \<or> u \<in> set blocked)"
    using otherUsers_empty [of pre self blocked] by blast
  with ok Cons show ?thesis by (simp add: findPartner_def)
qed

theorem findPartner_first_not_excluded_witness:
  "findPartner [''user_a'', ''user_b'', ''user_c'', ''user_d''] ''user_a'' [''user_b''] = Some ''user_c''
   \<and> findPartner [''user_a'', ''user_b''] ''user_a'' [''user_b''] = None"
  using findPartner_first_not_excluded [of "[''user_a'', ''user_b'', ''user_c'', ''user_d'']" "''user_a''" "[''user_b'']"]
  by (simp add: findPartner_def otherUsers_def)

subsection \<open>C5: a refused batch\<close>





subsection \<open>C6: deliveries of the remote description\<close>

text \<open>
  C6. The callee of \<open>room_1\<close> has its connection and its listener on the offer. The same
  offer is delivered twice before the connection has a current remote description (for the
  callee that is the case until its own answer is set): both deliveries pass the guard, and
  the offer is handed to \<open>setRemoteDescription\<close> twice.
\<close>

theorem offer_delivered_twice_handed_twice:
  "handed_over
     (remote_listener ''room_1'' (Some (''offer'', ''v=1''))
        (remote_listener ''room_1'' (Some (''offer'', ''v=1''))
           (handleMatchFound (Some ''room_1'') (new_client ''user_a'' None))))
     = [(''offer'', ''v=1''), (''offer'', ''v=1'')]"
  by code_simp

text \<open>
  The listener of a call outlives the call. After a skip and a second match, a delivery to
  the listener of \<open>room_1\<close> finds the connection of \<open>room_2\<close> in
  \<open>this.peerConnection\<close> and hands the offer of \<open>room_1\<close> to it.
\<close>

lemma stale_listener_reaches_next_connection:
  "connection_room client_second_call = Some ''room_2''
   \<and> handed_over client_second_call = []
   \<and> handed_over (remote_listener ''room_1'' (Some (''offer'', ''v=1'')) client_second_call)
       = [(''offer'', ''v=1'')]
   \<and> connection_room (remote_listener ''room_1'' (Some (''offer'', ''v=1'')) client_second_call)
       = Some ''room_2''"
  by code_simp

text \<open>Once the connection has a current remote description, a delivery does nothing.\<close>

lemma applied_stops_listener:
  "peerConnection c = Some p \<Longrightarrow> currentRemoteDescription p \<noteq> None \<Longrightarrow>
     remote_listener rid v c = c"
  by (cases v) (auto simp add: remote_listener_def)

subsection \<open>C7: after a lost reservation\<close>

text \<open>
  C7, as the claim states it: after a lost attempt the caller does not try the same
  candidate again. In \<open>world_lost\<close> the transaction of \<open>user_a\<close> on \<open>user_b\<close> is
  pending and will be aborted (\<open>user_c\<close> holds the reservation); after it, \<open>user_a\<close>
  writes its queue entry, takes a new snapshot and issues the transaction on \<open>user_b\<close>
  again.
\<close>

theorem lost_attempt_retries_same_candidate:
  "take_flow is_AttemptMatch (flows (clients world_lost ''user_a''))
     = Some (AttemptMatch ''user_b'' ''room_a'', [])
   \<and> fst (transaction_reservedBy ''user_b'' ''user_a'' (queue (db world_lost))) = False
   \<and> flows (clients (run [Transaction_resolved ''user_a'', Set_resolved ''user_a'' 4,
                           Once_resolved ''user_a'' ''room_a2''] world_lost) ''user_a'')
       = [AttemptMatch ''user_b'' ''room_a2'']"
  by code_simp

text \<open>
  C7, amended. An aborted transaction leaves the database as it was and the client as it
  was except that \<open>joinQueue\<close> has been called: no batch is issued and no room is set.
  That \<open>joinQueue\<close> writes the client's queue entry anew and takes a snapshot; when the
  snapshot arrives, the client issues a transaction on the first key of the snapshot that is
  neither its own id nor blocked, which may be the candidate it has just lost, and registers
  the listener on its Match row when there is no such key.
\<close>

theorem lost_attempt_reenters_joinQueue:
  "(take_flow is_AttemptMatch (flows (clients w u)) = Some (AttemptMatch otherUid rid, rest)
      \<and> reservation (queue (db w)) otherUid \<noteq> None
    \<longrightarrow> db (step (Transaction_resolved u) w) = db w
      \<and> clients (step (Transaction_resolved u) w) u = (clients w u)\<lparr>flows := rest @ [JoinQueue_set]\<rparr>)
   \<and> (take_flow (\<lambda>f. f = JoinQueue_set) (flows (clients w u)) = Some (JoinQueue_set, rest)
    \<longrightarrow> db (step (Set_resolved u ts) w) =
          (db w)\<lparr>queue := set_child (uid (clients w u))
             \<lparr>qe_uid = Some (uid (clients w u)), qe_timestamp = Some ts, reservedBy = None\<rparr>
             (queue (db w))\<rparr>
      \<and> clients (step (Set_resolved u ts) w) u = (clients w u)\<lparr>flows := rest @ [JoinQueue_once]\<rparr>)
   \<and> (take_flow (\<lambda>f. f = JoinQueue_once) (flows (clients w u)) = Some (JoinQueue_once, rest)
    \<longrightarrow> db (step (Once_resolved u rid) w) = db w
      \<and> clients (step (Once_resolved u rid) w) u =
          (case findPartner (Object_keys (queue (db w))) (uid (clients w u)) (blockedUsers (clients w u)) of
             Some candidate \<Rightarrow> (clients w u)\<lparr>flows := rest @ [AttemptMatch candidate rid]\<rparr>
           | None \<Rightarrow> (clients w u)\<lparr>flows := rest, matchListener := True\<rparr>))"
proof (intro conjI impI)
  assume a: "take_flow is_AttemptMatch (flows (clients w u)) = Some (AttemptMatch otherUid rid, rest)
      \<and> reservation (queue (db w)) otherUid \<noteq> None"
  then have lost: "transaction_reservedBy otherUid (uid (clients w u)) (queue (db w)) = (False, queue (db w))"
    by (simp add: transaction_reservedBy_lost)
  from a have p: "take_flow is_AttemptMatch (flows (clients w u)) = Some (AttemptMatch otherUid rid, rest)"
    by simp
  show "db (step (Transaction_resolved u) w) = db w"
    by (simp add: take_flow_step [OF p] attemptMatch_after_transaction_def lost)
  show "clients (step (Transaction_resolved u) w) u = (clients w u)\<lparr>flows := rest @ [JoinQueue_set]\<rparr>"
    by (simp add: take_flow_step [OF p] attemptMatch_after_transaction_def lost joinQueue_def)
next
  assume p: "take_flow (\<lambda>f. f = JoinQueue_set) (flows (clients w u)) = Some (JoinQueue_set, rest)"
  show "db (step (Set_resolved u ts) w) =
          (db w)\<lparr>queue := set_child (uid (clients w u))
             \<lparr>qe_uid = Some (uid (clients w u)), qe_timestamp = Some ts, reservedBy = None\<rparr>
             (queue (db w))\<rparr>"
    by (simp add: take_flow_step [OF p] joinQueue_after_set_def)
  show "clients (step (Set_resolved u ts) w) u = (clients w u)\<lparr>flows := rest @ [JoinQueue_once]\<rparr>"
    by (simp add: take_flow_step [OF p] joinQueue_after_set_def)
next
  assume p: "take_flow (\<lambda>f. f = JoinQueue_once) (flows (clients w u)) = Some (JoinQueue_once, rest)"
  show "db (step (Once_resolved u rid) w) = db w"
    by (simp add: take_flow_step [OF p] joinQueue_after_once_choice)
  show "clients (step (Once_resolved u rid) w) u =
          (case findPartner (Object_keys (queue (db w))) (uid (clients w u)) (blockedUsers (clients w u)) of
             Some candidate \<Rightarrow> (clients w u)\<lparr>flows := rest @ [AttemptMatch candidate rid]\<rparr>
           | None \<Rightarrow> (clients w u)\<lparr>flows := rest, matchListener := True\<rparr>)"
    by (simp add: take_flow_step [OF p] joinQueue_after_once_choice split: option.splits)
qed

theorem lost_attempt_reenters_joinQueue_witness:
  "take_flow is_AttemptMatch (flows (clients world_lost ''user_a''))
     = Some (AttemptMatch ''user_b'' ''room_a'', [])
   \<and> reservation (queue (db world_lost)) ''user_b'' \<noteq> None
   \<and> db (step (Transaction_resolved ''user_a'') world_lost) = db world_lost
   \<and> flows (clients (step (Transaction_resolved ''user_a'') world_lost) ''user_a'') = [JoinQueue_set]
   \<and> take_flow (\<lambda>f. f = JoinQueue_set) (flows (clients world_aborted ''user_a''))
       = Some (JoinQueue_set, [])
   \<and> flows (clients (step (Set_resolved ''user_a'' 4) world_aborted) ''user_a'') = [JoinQueue_once]
   \<and> take_flow (\<lambda>f. f = JoinQueue_once) (flows (clients world_rejoined ''user_a''))
       = Some (JoinQueue_once, [])
   \<and> flows (clients (step (Once_resolved ''user_a'' ''room_a2'') world_rejoined) ''user_a'')
       = [AttemptMatch ''user_b'' ''room_a2'']"
proof -
  have lost: "take_flow is_AttemptMatch (flows (clients world_lost ''user_a''))
       = Some (AttemptMatch ''user_b'' ''room_a'', [])
     \<and> reservation (queue (db world_lost)) ''user_b'' \<noteq> None"
    using world_lost_pending world_lost_reserved by simp
  have "db (step (Transaction_resolved ''user_a'') world_lost) = db world_lost
     \<and> clients (step (Transaction_resolved ''user_a'') world_lost) ''user_a''
         = (clients world_lost ''user_a'')\<lparr>flows := [] @ [JoinQueue_set]\<rparr>"
    using lost_attempt_reenters_joinQueue
      [where w = world_lost and u = "''user_a''" and otherUid = "''user_b''"
         and rid = "''room_a''" and rest = "[]"] lost
    by blast
  then have first: "db (step (Transaction_resolved ''user_a'') world_lost) = db world_lost
     \<and> flows (clients (step (Transaction_resolved ''user_a'') world_lost) ''user_a'') = [JoinQueue_set]"
    by (simp del: step.simps)
  have "clients (step (Set_resolved ''user_a'' 4) world_aborted) ''user_a''
         = (clients world_aborted ''user_a'')\<lparr>flows := [] @ [JoinQueue_once]\<rparr>"
    using lost_attempt_reenters_joinQueue
      [where w = world_aborted and u = "''user_a''" and ts = 4 and rest = "[]"]
      world_aborted_pending
    by blast
  then have second: "flows (clients (step (Set_resolved ''user_a'' 4) world_aborted) ''user_a'')
       = [JoinQueue_once]"
    by (simp del: step.simps)
  have "clients (step (Once_resolved ''user_a'' ''room_a2'') world_rejoined) ''user_a'' =
          (case findPartner (Object_keys (queue (db world_rejoined)))
                  (uid (clients world_rejoined ''user_a''))
                  (blockedUsers (clients world_rejoined ''user_a'')) of
             Some candidate \<Rightarrow>
               (clients world_rejoined ''user_a'')\<lparr>flows := [] @ [AttemptMatch candidate ''room_a2'']\<rparr>
           | None \<Rightarrow> (clients world_rejoined ''user_a'')\<lparr>flows := [], matchListener := True\<rparr>)"
    using lost_attempt_reenters_joinQueue
      [where w = world_rejoined and u = "''user_a''" and rid = "''room_a2''" and rest = "[]"]
      world_rejoined_pending
    by blast
  then have third: "flows (clients (step (Once_resolved ''user_a'' ''room_a2'') world_rejoined) ''user_a'')
       = [AttemptMatch ''user_b'' ''room_a2'']"
    by (simp del: step.simps add: world_rejoined_choice)
  from lost first second third world_aborted_pending world_rejoined_pending show ?thesis by blast
qed

subsection \<open>C8: the report counter\<close>

text \<open>
  C8, as the claim states it: every report adds one. The counter is a JavaScript number; at
  \<open>2^53\<close> the sum \<open>current + 1\<close> is rounded back to \<open>2^53\<close>, so one report, or
  two, leave the counter where it was.
\<close>

theorem report_at_two_to_53_not_counted:
  "report_count (db world_saturated) ''user_b'' = 9007199254740992
   \<and> report_count (report_all [''user_b''] (db world_saturated)) ''user_b'' = 9007199254740992
   \<and> report_count (report_all [''user_b'', ''user_b''] (db world_saturated)) ''user_b''
       = 9007199254740992"
  by code_simp

text \<open>
  C8, amended. The reports of any targets are taken by the database one at a time, in any
  order. For a target \<open>t\<close> whose counter (absent counts as 0) is at least \<open>-2^53\<close>
  and, with the number of reports of \<open>t\<close> added, at most \<open>2^53\<close>, the counter ends at
  its initial value plus the number of reports of \<open>t\<close>.
\<close>

theorem reports_counted_below_two_to_53:
  assumes "- (2 ^ 53) \<le> report_count s t"
    and "report_count s t + int (count_list targets t) \<le> 2 ^ 53"
  shows "report_count (report_all targets s) t = report_count s t + int (count_list targets t)"
  using assms
  unfolding report_all_def
proof (induction targets arbitrary: s)
  case Nil
  then show ?case by simp
next
  case (Cons u targets)
  show ?case
  proof (cases "u = t")
    case True
    with Cons.prems have b: "\<bar>report_count s t + 1\<bar> \<le> 2 ^ 53" by simp
    have one: "report_count (transaction_reports u s) t = report_count s t + 1"
      using True by (simp add: report_count_transaction double_of_int_exact [OF b])
    have "report_count (fold transaction_reports targets (transaction_reports u s)) t
        = report_count (transaction_reports u s) t + int (count_list targets t)"
      using Cons.prems True one by (intro Cons.IH) simp_all
    with one True show ?thesis by simp
  next
    case False
    then have same: "report_count (transaction_reports u s) t = report_count s t"
      by (simp add: report_count_transaction)
    have "report_count (fold transaction_reports targets (transaction_reports u s)) t
        = report_count (transaction_reports u s) t + int (count_list targets t)"
      using Cons.prems False same by (intro Cons.IH) simp_all
    with same False show ?thesis by simp
  qed
qed

theorem reports_counted_below_two_to_53_witness:
  "- (2 ^ 53) \<le> report_count empty_store ''user_b''
   \<and> report_count empty_store ''user_b'' + int (count_list [''user_b'', ''user_c'', ''user_b''] ''user_b'')
       \<le> 2 ^ 53
   \<and> report_count (report_all [''user_b'', ''user_c'', ''user_b''] empty_store) ''user_b'' = 2"
proof -
  have a: "- (2 ^ 53) \<le> report_count empty_store ''user_b''"
    by (simp add: report_count_def empty_store_def)
  have b: "report_count empty_store ''user_b''
      + int (count_list [''user_b'', ''user_c'', ''user_b''] ''user_b'') \<le> 2 ^ 53"
    by (simp add: report_count_def empty_store_def)
  from reports_counted_below_two_to_53 [OF a b] a b show ?thesis
    by (simp add: report_count_def empty_store_def)
qed

subsection \<open>C9: the debounce of \<open>handleNext\<close>\<close>

text \<open>
  C9, as the claim states it: after a burst of skips exactly one re-entry is pending. The
  connection of \<open>user_c\<close> has failed at time 0, and \<open>handleConnectionError\<close> has set
  a timer for \<open>joinQueue\<close> at 2000 whose id it does not keep. Skips at 100 and at 300
  cancel only the timer \<open>matchTimeout\<close> holds: two timers are pending after them, and
  \<open>joinQueue\<close> is started twice.
\<close>

theorem skips_do_not_cancel_error_retry:
  "timers (clients (run failed_run initial_world) ''user_c'') = [(1, 2000)]
   \<and> matchTimeout (clients (run failed_run initial_world) ''user_c'') = None
   \<and> timers (snd (fold skip_at [100, 300]
         (db (run failed_run initial_world), clients (run failed_run initial_world) ''user_c'')))
       = [(1, 2000), (3, 800)]
   \<and> timers (clients (run (failed_run @ [Next ''user_c'' 100, Next ''user_c'' 300]) initial_world)
         ''user_c'')
       = [(1, 2000), (3, 800)]
   \<and> flows (clients (run (failed_run @ [Next ''user_c'' 100, Next ''user_c'' 300]) initial_world)
         ''user_c'')
       = []
   \<and> flows (clients (run (failed_run @ [Next ''user_c'' 100, Next ''user_c'' 300,
                                         Timers ''user_c'' 2000]) initial_world) ''user_c'')
       = [JoinQueue_set, JoinQueue_set]"
  by code_simp

text \<open>
  C9, amended. For skip triggers at times \<open>ts\<close>, each less than 500 ms after the one
  before, on a client in any state that a run reaches: after the last trigger the pending
  timers are the new timer \<open>j\<close>, which \<open>matchTimeout\<close> holds, due 500 ms after the
  last trigger, and before it those of the timers pending at the start that are not yet due
  and were not the one \<open>matchTimeout\<close> held. So of the timers set by the skips exactly one
  is pending, and the one held before the burst is cancelled. \<open>joinQueue\<close> has been
  started during the burst only by timers of the start that came due; at a later time
  \<open>now\<close> the new timer is due if and only if \<open>now\<close> is at least 500 ms after the
  last trigger.
\<close>

theorem rapid_skips_leave_one_skip_timer:
  assumes "ts \<noteq> []" and "rapid ts"
    and reached: "c = clients (run es initial_world) u"
  shows "(\<exists>j. timers (snd (fold skip_at ts (s, c)))
            = filter (\<lambda>p. last ts < snd p \<and> Some (fst p) \<noteq> matchTimeout c) (timers c)
                @ [(j, last ts + 500)]
          \<and> matchTimeout (snd (fold skip_at ts (s, c))) = Some j
          \<and> j \<notin> fst ` set (timers c))
    \<and> flows (snd (fold skip_at ts (s, c)))
        = flows c @ replicate
            (length (filter (\<lambda>p. snd p \<le> hd ts) (timers c))
             + length (filter (\<lambda>p. snd p \<le> last ts)
                 (filter (\<lambda>p. hd ts < snd p \<and> Some (fst p) \<noteq> matchTimeout c) (timers c))))
            JoinQueue_set
    \<and> length (filter (\<lambda>p. snd p \<le> now) (timers (snd (fold skip_at ts (s, c)))))
        = length (filter (\<lambda>p. snd p \<le> now)
            (filter (\<lambda>p. last ts < snd p \<and> Some (fst p) \<noteq> matchTimeout c) (timers c)))
          + (if last ts + 500 \<le> now then 1 else 0)"
proof -
  have ids: "\<forall>p\<in>set (timers c). fst p < nextTimer c"
    unfolding reached by (rule run_timer_ids)
  show ?thesis
    by (rule skips_leave_one_skip_timer [OF assms(1) assms(2) ids])
qed

theorem rapid_skips_leave_one_skip_timer_witness:
  "rapid [100, 300]
   \<and> timers (clients (run failed_run initial_world) ''user_c'') = [(1, 2000)]
   \<and> matchTimeout (clients (run failed_run initial_world) ''user_c'') = None
   \<and> timers (snd (fold skip_at [100, 300]
         (db (run failed_run initial_world), clients (run failed_run initial_world) ''user_c'')))
       = [(1, 2000), (3, 800)]
   \<and> matchTimeout (snd (fold skip_at [100, 300]
         (db (run failed_run initial_world), clients (run failed_run initial_world) ''user_c'')))
       = Some 3
   \<and> flows (snd (fold skip_at [100, 300]
         (db (run failed_run initial_world), clients (run failed_run initial_world) ''user_c'')))
       = []"
proof -
  let ?c = "clients (run failed_run initial_world) ''user_c''"
  let ?s = "db (run failed_run initial_world)"
  have r: "rapid [100, 300]" by simp
  have n: "[100, 300] \<noteq> ([] :: nat list)" by simp
  have v: "timers ?c = [(1, 2000)] \<and> matchTimeout ?c = None \<and> flows ?c = []"
    by code_simp
  obtain j where j: "timers (snd (fold skip_at [100, 300] (?s, ?c)))
            = filter (\<lambda>p. last [100, 300] < snd p \<and> Some (fst p) \<noteq> matchTimeout ?c)
                (timers ?c) @ [(j, last [100, 300] + 500)]"
      "matchTimeout (snd (fold skip_at [100, 300] (?s, ?c))) = Some j"
    using rapid_skips_leave_one_skip_timer
        [where es = failed_run and u = "''user_c''" and s = ?s and now = 0, OF n r refl]
    by blast
  have f: "flows (snd (fold skip_at [100, 300] (?s, ?c)))
        = flows ?c @ replicate
            (length (filter (\<lambda>p. snd p \<le> hd [100, 300]) (timers ?c))
             + length (filter (\<lambda>p. snd p \<le> last [100, 300])
                 (filter (\<lambda>p. hd [100, 300] < snd p \<and> Some (fst p) \<noteq> matchTimeout ?c)
                    (timers ?c))))
            JoinQueue_set"
    using rapid_skips_leave_one_skip_timer
        [where es = failed_run and u = "''user_c''" and s = ?s and now = 0, OF n r refl]
    by blast
  have k: "timers (snd (fold skip_at [100, 300] (?s, ?c))) = [(1, 2000), (3, 800)]"
    by code_simp
  from j k v have "j = 3" by simp
  with j f k v r show ?thesis by simp
qed

subsection \<open>C10: a report blocks the partner\<close>

text \<open>
  C10, as the claim states it: the report adds one to the counter of the partner. In
  \<open>world_saturated\<close> the reporter \<open>user_c\<close> is in a room with \<open>user_b\<close>, whose
  counter is \<open>2^53\<close>; after the report the counter is \<open>2^53\<close> still (and
  \<open>user_b\<close> is blocked).
\<close>

theorem report_at_saturated_counter_adds_nothing:
  "currentRoom (clients world_saturated ''user_c'') = Some ''room_c''
   \<and> getCurrentRoomParticipants True (db world_saturated) (clients world_saturated ''user_c'')
       = [''user_c'', ''user_b'']
   \<and> report_count (db world_saturated) ''user_b'' = 9007199254740992
   \<and> report_count (db (step (Report ''user_c'' True True 7) world_saturated)) ''user_b''
       = 9007199254740992
   \<and> blockedUsers (clients (step (Report ''user_c'' True True 7) world_saturated) ''user_c'')
       = [''user_b'']"
  by code_simp

text \<open>
  C10, amended. When the reporter \<open>u\<close> has a current room whose first participant other
  than itself is the non-empty id \<open>t\<close>, a report (read and transaction succeeding) sets
  the report counter of \<open>t\<close> to the JavaScript sum of the counter and 1, which is the
  counter plus one when that is at most \<open>2^53\<close> in absolute value; it appends \<open>t\<close>
  to the block list and stores the list unless \<open>t\<close> is already in it (so \<open>t\<close> is in
  it as often as before, and once when it was not), and then does what \<open>handleNext\<close>
  does; after any further events the candidate choice of \<open>u\<close> never returns \<open>t\<close>.
  When no participant other than the reporter is found (the read failed, there is no room,
  or nobody else is listed) nothing changes.
\<close>

theorem report_counts_rounded_and_blocks:
  "(currentRoom (clients w u) = Some rid \<and> rooms (db w) rid = Some r
      \<and> List.find (\<lambda>p. p \<noteq> uid (clients w u)) (participants r) = Some t \<and> t \<noteq> []
    \<longrightarrow> report_count (db (step (Report u True True now) w)) t
          = double_of_int (report_count (db w) t + 1)
      \<and> (\<bar>report_count (db w) t + 1\<bar> \<le> 2 ^ 53
           \<longrightarrow> report_count (db (step (Report u True True now) w)) t = report_count (db w) t + 1)
      \<and> blockedUsers (clients (step (Report u True True now) w) u) =
          (if t \<in> set (blockedUsers (clients w u)) then blockedUsers (clients w u)
           else blockedUsers (clients w u) @ [t])
      \<and> localStorage_blocked (clients (step (Report u True True now) w) u) =
          (if t \<in> set (blockedUsers (clients w u)) then localStorage_blocked (clients w u)
           else Some (blockedUsers (clients w u) @ [t]))
      \<and> count_list (blockedUsers (clients (step (Report u True True now) w) u)) t =
          max 1 (count_list (blockedUsers (clients w u)) t)
      \<and> step (Report u True True now) w =
          step (Next u now)
            (w\<lparr>db := transaction_reports t (db w),
               clients := (clients w)(u := addToBlockedUsers t (clients w u))\<rparr>)
      \<and> findPartner ks (uid (clients w u))
          (blockedUsers (clients (run es (step (Report u True True now) w)) u)) \<noteq> Some t)
   \<and> (List.find (\<lambda>p. p \<noteq> uid (clients w u))
         (getCurrentRoomParticipants read_ok (db w) (clients w u)) = None
    \<longrightarrow> step (Report u read_ok tx_ok now) w = w)"
proof (intro conjI impI)
  assume "currentRoom (clients w u) = Some rid \<and> rooms (db w) rid = Some r
      \<and> List.find (\<lambda>p. p \<noteq> uid (clients w u)) (participants r) = Some t \<and> t \<noteq> []"
  then have hr: "handleReport True True now (db w, clients w u) =
      handleNext now (transaction_reports t (db w), addToBlockedUsers t (clients w u))"
    by (simp add: handleReport_reports)
  obtain s' c' where hn:
    "handleNext now (transaction_reports t (db w), addToBlockedUsers t (clients w u)) = (s', c')"
    by (cases "handleNext now (transaction_reports t (db w), addToBlockedUsers t (clients w u))")
  have st: "step (Report u True True now) w = w\<lparr>db := s', clients := (clients w)(u := c')\<rparr>"
    by (simp add: local_step_def hr hn)
  have s': "s' = fst (handleNext now (transaction_reports t (db w), addToBlockedUsers t (clients w u)))"
    and c': "c' = snd (handleNext now (transaction_reports t (db w), addToBlockedUsers t (clients w u)))"
    using hn by simp_all
  have "reports s' t = reports (transaction_reports t (db w)) t"
    unfolding s' handleNext_store by simp
  then have cnt: "report_count s' t = double_of_int (report_count (db w) t + 1)"
    using report_count_transaction [of t "db w" t] by (simp add: report_count_def)
  have bl: "blockedUsers c' =
      (if t \<in> set (blockedUsers (clients w u)) then blockedUsers (clients w u)
       else blockedUsers (clients w u) @ [t])"
    unfolding c' by (simp add: handleNext_blocked addToBlockedUsers_list)
  have ls: "localStorage_blocked c' =
      (if t \<in> set (blockedUsers (clients w u)) then localStorage_blocked (clients w u)
       else Some (blockedUsers (clients w u) @ [t]))"
    unfolding c' handleNext_client by (simp add: addToBlockedUsers_def)
  show "report_count (db (step (Report u True True now) w)) t
      = double_of_int (report_count (db w) t + 1)"
    unfolding st using cnt by simp
  show "report_count (db (step (Report u True True now) w)) t = report_count (db w) t + 1"
    if "\<bar>report_count (db w) t + 1\<bar> \<le> 2 ^ 53"
    unfolding st using cnt double_of_int_exact [OF that] by simp
  show "blockedUsers (clients (step (Report u True True now) w) u) =
          (if t \<in> set (blockedUsers (clients w u)) then blockedUsers (clients w u)
           else blockedUsers (clients w u) @ [t])"
    unfolding st using bl by simp
  show "localStorage_blocked (clients (step (Report u True True now) w) u) =
          (if t \<in> set (blockedUsers (clients w u)) then localStorage_blocked (clients w u)
           else Some (blockedUsers (clients w u) @ [t]))"
    unfolding st using ls by simp
  show "count_list (blockedUsers (clients (step (Report u True True now) w) u)) t =
          max 1 (count_list (blockedUsers (clients w u)) t)"
  proof (cases "t \<in> set (blockedUsers (clients w u))")
    case True
    then have "0 < count_list (blockedUsers (clients w u)) t"
      using count_list_0_iff [of "blockedUsers (clients w u)" t] by auto
    with True show ?thesis unfolding st using bl by simp
  next
    case False
    then have "count_list (blockedUsers (clients w u)) t = 0"
      by (simp add: count_list_0_iff)
    with False show ?thesis unfolding st using bl by simp
  qed
  show "step (Report u True True now) w =
          step (Next u now)
            (w\<lparr>db := transaction_reports t (db w),
               clients := (clients w)(u := addToBlockedUsers t (clients w u))\<rparr>)"
    by (simp add: local_step_def hr hn)
  have "t \<in> set (blockedUsers (clients (step (Report u True True now) w) u))"
    unfolding st using bl by simp
  then have "t \<in> set (blockedUsers (clients (run es (step (Report u True True now) w)) u))"
    using run_blocked [of "step (Report u True True now) w" u es] by blast
  then show "findPartner ks (uid (clients w u))
          (blockedUsers (clients (run es (step (Report u True True now) w)) u)) \<noteq> Some t"
    by (rule findPartner_not_blocked)
next
  assume "List.find (\<lambda>p. p \<noteq> uid (clients w u))
         (getCurrentRoomParticipants read_ok (db w) (clients w u)) = None"
  then have "handleReport read_ok tx_ok now (db w, clients w u) = (db w, clients w u)"
    by (rule handleReport_nothing)
  then show "step (Report u read_ok tx_ok now) w = w"
    by (simp add: local_step_def)
qed

theorem report_counts_rounded_and_blocks_witness:
  "currentRoom (clients world_matched ''user_c'') = Some ''room_c''
   \<and> report_count (db (step (Report ''user_c'' True True 7) world_matched)) ''user_b'' = 1
   \<and> blockedUsers (clients (step (Report ''user_c'' True True 7) world_matched) ''user_c'') = [''user_b'']
   \<and> localStorage_blocked (clients (step (Report ''user_c'' True True 7) world_matched) ''user_c'')
       = Some [''user_b'']
   \<and> findPartner [''user_a'', ''user_b'', ''user_c''] ''user_c''
        (blockedUsers (clients (run [ShowApp ''user_c'']
           (step (Report ''user_c'' True True 7) world_matched)) ''user_c'')) \<noteq> Some ''user_b''
   \<and> step (Report ''user_b'' False True 7) world_matched = world_matched"
proof -
  let ?r = "\<lparr>createdBy = ''user_c'', createdAt = 3, participants = [''user_c'', ''user_b''],
             offer = None, answer = None, callerCandidates = [], calleeCandidates = []\<rparr>"
  have h: "currentRoom (clients world_matched ''user_c'') = Some ''room_c''
      \<and> rooms (db world_matched) ''room_c'' = Some ?r
      \<and> List.find (\<lambda>p. p \<noteq> uid (clients world_matched ''user_c'')) (participants ?r) = Some ''user_b''
      \<and> ''user_b'' \<noteq> []"
    using world_matched_room by simp
  have g: "List.find (\<lambda>p. p \<noteq> uid (clients world_matched ''user_b''))
         (getCurrentRoomParticipants False (db world_matched) (clients world_matched ''user_b'')) = None"
    by (simp add: getCurrentRoomParticipants_unread)
  have k: "\<bar>report_count (db world_matched) ''user_b'' + 1\<bar> \<le> 2 ^ 53"
    using world_matched_room by (simp add: report_count_def)
  have a: "report_count (db (step (Report ''user_c'' True True 7) world_matched)) ''user_b''
        = report_count (db world_matched) ''user_b'' + 1
      \<and> blockedUsers (clients (step (Report ''user_c'' True True 7) world_matched) ''user_c'') =
          (if ''user_b'' \<in> set (blockedUsers (clients world_matched ''user_c''))
           then blockedUsers (clients world_matched ''user_c'')
           else blockedUsers (clients world_matched ''user_c'') @ [''user_b''])
      \<and> localStorage_blocked (clients (step (Report ''user_c'' True True 7) world_matched) ''user_c'') =
          (if ''user_b'' \<in> set (blockedUsers (clients world_matched ''user_c''))
           then localStorage_blocked (clients world_matched ''user_c'')
           else Some (blockedUsers (clients world_matched ''user_c'') @ [''user_b'']))
      \<and> findPartner [''user_a'', ''user_b'', ''user_c''] (uid (clients world_matched ''user_c''))
          (blockedUsers (clients (run [ShowApp ''user_c'']
             (step (Report ''user_c'' True True 7) world_matched)) ''user_c'')) \<noteq> Some ''user_b''"
    using report_counts_rounded_and_blocks
      [where w = world_matched and u = "''user_c''" and rid = "''room_c''" and r = ?r
         and t = "''user_b''" and now = 7 and ks = "[''user_a'', ''user_b'', ''user_c'']"
         and es = "[ShowApp ''user_c'']"] h k
    by blast
  have b: "step (Report ''user_b'' False True 7) world_matched = world_matched"
    using report_counts_rounded_and_blocks
      [where w = world_matched and u = "''user_b''" and read_ok = False and tx_ok = True
         and now = 7] g
    by blast
  from a b h world_matched_room show ?thesis
    by (simp del: step.simps add: report_count_def)
qed

end
